theory Spec2Isabelle
  imports Main "HOL-Library.Word"
begin

unbundle bit_operations_syntax

section \<open>Values of the execution platform\<close>

text \<open>
  The two contracts of \<^verbatim>\<open>contracts/BatchExecutor.sol\<close> (BatchExecutor and GasSponsor) are
  compiled with Solidity 0.8: \<^verbatim>\<open>uint256\<close> arithmetic is checked (an overflow or a division
  by zero raises a Panic and reverts), a failed \<^verbatim>\<open>require\<close> reverts with its message, and
  a reverted call leaves no trace in storage, balances, outgoing calls or the event log.
\<close>

type_synonym address = "160 word"
type_synonym uint256 = "256 word"
type_synonym bytes32 = "256 word"
type_synonym bytes = "8 word list"

datatype panic = Overflow | DivisionByZero | IndexOutOfBounds

text \<open>
  Why a call did not go through: a failed \<^verbatim>\<open>require\<close>, a Panic, or the bound of the
  platform on the depth of nested calls.
\<close>

datatype revert_reason = Require string | Panic panic | CallDepth

text \<open>\<^verbatim>\<open>a + b\<close> on \<^verbatim>\<open>uint256\<close>: Panic(0x11) when the sum does not fit.\<close>

definition checked_add :: "uint256 \<Rightarrow> uint256 \<Rightarrow> revert_reason + uint256" where
  "checked_add a b =
     (if unat a + unat b < 2 ^ 256 then Inr (a + b) else Inl (Panic Overflow))"

text \<open>
  \<^verbatim>\<open>a / xs.length\<close> on \<^verbatim>\<open>uint256\<close>: Panic(0x12) when the array is empty. The length of
  a calldata array is far below \<open>2 ^ 256\<close>, so it is kept as a natural number.
\<close>

definition checked_div :: "uint256 \<Rightarrow> nat \<Rightarrow> revert_reason + uint256" where
  "checked_div a n =
     (if n = 0 then Inl (Panic DivisionByZero) else Inr (word_of_nat (unat a div n)))"

text \<open>Big-endian byte strings, as \<^verbatim>\<open>abi.encode\<close> and \<^verbatim>\<open>calldataload\<close> read them.\<close>

definition be_bytes :: "nat \<Rightarrow> 'a::len word \<Rightarrow> bytes" where
  "be_bytes n w = map (\<lambda>i. ucast (drop_bit (8 * (n - 1 - i)) w)) [0..<n]"

definition be_word :: "bytes \<Rightarrow> 'a::len word" where
  "be_word bs = foldl (\<lambda>acc b. push_bit 8 acc OR ucast b) 0 bs"

text \<open>\<^verbatim>\<open>abi.encode\<close> of static values: one 32-byte slot each.\<close>

definition abi_encode :: "uint256 list \<Rightarrow> bytes" where
  "abi_encode ws = concat (map (be_bytes 32) ws)"

text \<open>
  A transaction runs a body on the current state. The body either returns a value and the
  state it reached, or reverts with a reason at some intermediate state; the platform then
  discards that intermediate state and keeps the state before the call.
\<close>

type_synonym ('s, 'a) body = "'s \<Rightarrow> (revert_reason \<times> 's) + ('a \<times> 's)"

definition transact :: "('s, 'a) body \<Rightarrow> 's \<Rightarrow> (revert_reason + 'a) \<times> 's" where
  "transact body s =
     (case body s of
        Inl (e, dirty) \<Rightarrow> (Inl e, s)
      | Inr (r, s') \<Rightarrow> (Inr r, s'))"

section \<open>BatchExecutor\<close>

record forward_request =
  req_from :: address
  req_to :: address
  req_value :: uint256
  req_gas :: uint256
  req_nonce :: uint256
  req_data :: bytes

text \<open>An outgoing call: target, gas limit, value and calldata.\<close>

record outgoing_call =
  call_to :: address
  call_gas :: uint256
  call_value :: uint256
  call_data :: bytes

datatype executor_event =
    RequestExecuted address address uint256 bool
  | BatchExecuted address uint256 uint256

text \<open>
  Storage of the contract (\<open>DOMAIN_SEPARATOR\<close>, \<open>nonces\<close>; a Solidity mapping is total and
  reads 0 where nothing was written) together with the effects a transaction leaves behind:
  the calls it made to targets and the events it emitted.
\<close>

record batch_executor =
  DOMAIN_SEPARATOR :: bytes32
  nonces :: "address \<Rightarrow> uint256"
  invoked :: "outgoing_call list"
  emitted :: "executor_event list"

text \<open>
  What the code of a called target does with the contract while the call runs. It either
  returns, with success or failure, or calls back into \<open>executeBatch\<close> (the only function
  of the contract that writes) as some sender with some batch, and goes on according to
  the outcome of that nested call and to the state it finds afterwards (\<open>verify\<close>,
  \<open>getNonce\<close> and the public variables let it read the state at any time).
\<close>

datatype callee =
    Return bool
  | Reenter address "forward_request list" "bytes list"
      "(revert_reason + bool list) \<times> batch_executor \<Rightarrow> callee"

text \<open>
  What the contract takes from the platform: the hash function, signature recovery
  (\<open>ecrecover\<close> answers the zero address when recovery fails), the chain id, and the code
  that runs when a target is called, as it behaves on the state it is called in.
\<close>

record platform =
  keccak256 :: "bytes \<Rightarrow> bytes32"
  ecrecover :: "bytes32 \<Rightarrow> 8 word \<Rightarrow> bytes32 \<Rightarrow> bytes32 \<Rightarrow> address"
  chainid :: uint256
  extcall :: "batch_executor \<Rightarrow> outgoing_call \<Rightarrow> callee"

definition REQUEST_TYPEHASH :: "platform \<Rightarrow> bytes32" where
  "REQUEST_TYPEHASH pf =
     keccak256 pf (map of_char
       ''ForwardRequest(address from,address to,uint256 value,uint256 gas,uint256 nonce,bytes data)'')"

definition constructor :: "platform \<Rightarrow> address \<Rightarrow> batch_executor" where
  "constructor pf this =
     \<lparr>DOMAIN_SEPARATOR =
        keccak256 pf (abi_encode
          [keccak256 pf (map of_char
             ''EIP712Domain(string name,string version,uint256 chainId,address verifyingContract)''),
           keccak256 pf (map of_char ''BatchExecutor''),
           keccak256 pf (map of_char ''1''),
           chainid pf,
           ucast this]),
      nonces = (\<lambda>_. 0),
      invoked = [],
      emitted = []\<rparr>"

text \<open>Steps 1 and 2 of \<open>verify\<close>: the struct hash and the digest that was signed.\<close>

definition structHash :: "platform \<Rightarrow> forward_request \<Rightarrow> bytes32" where
  "structHash pf req =
     keccak256 pf (abi_encode
       [REQUEST_TYPEHASH pf,
        ucast (req_from req),
        ucast (req_to req),
        req_value req,
        req_gas req,
        req_nonce req,
        keccak256 pf (req_data req)])"

definition digest :: "platform \<Rightarrow> batch_executor \<Rightarrow> forward_request \<Rightarrow> bytes32" where
  "digest pf s req =
     keccak256 pf ([0x19, 0x01] @ be_bytes 32 (DOMAIN_SEPARATOR s) @ be_bytes 32 (structHash pf req))"

text \<open>\<open>_recoverSigner\<close>: 65 bytes, split as r (32), s (32), v (1).\<close>

definition recoverSigner :: "platform \<Rightarrow> bytes32 \<Rightarrow> bytes \<Rightarrow> revert_reason + address" where
  "recoverSigner pf dg signature =
     (if length signature \<noteq> 65 then Inl (Require ''BatchExecutor: invalid signature length'')
      else
        let r = be_word (take 32 signature);
            s = be_word (take 32 (drop 32 signature));
            v = signature ! 64;
            signer = ecrecover pf dg v r s
        in if signer = 0 then Inl (Require ''BatchExecutor: invalid signature'')
           else Inr signer)"

definition verify :: "platform \<Rightarrow> batch_executor \<Rightarrow> forward_request \<Rightarrow> bytes \<Rightarrow> revert_reason + bool" where
  "verify pf s req signature =
     (case recoverSigner pf (digest pf s req) signature of
        Inl e \<Rightarrow> Inl e
      | Inr signer \<Rightarrow> Inr (signer = req_from req \<and> req_nonce req = nonces s (req_from req)))"

text \<open>The call \<open>_executeRequest\<close> makes: the payload with the sender appended (20 bytes).\<close>

definition call_of :: "forward_request \<Rightarrow> outgoing_call" where
  "call_of req =
     \<lparr>call_to = req_to req,
      call_gas = req_gas req,
      call_value = req_value req,
      call_data = req_data req @ be_bytes 20 (req_from req)\<rparr>"

text \<open>The entry point \<open>executeBatch\<close> as a nested caller meets it.\<close>

type_synonym entry =
  "address \<Rightarrow> forward_request list \<Rightarrow> bytes list \<Rightarrow> batch_executor
     \<Rightarrow> (revert_reason + bool list) \<times> batch_executor"

text \<open>
  Running the code of a target on the contract: every call back is run through the entry
  point, and the code continues on what it gets.
\<close>

primrec run_callee :: "entry \<Rightarrow> callee \<Rightarrow> batch_executor \<Rightarrow> bool \<times> batch_executor" where
  "run_callee nested (Return ok) s = (ok, s)"
| "run_callee nested (Reenter a reqs sigs k) s =
     (case nested a reqs sigs s of (res, s') \<Rightarrow> run_callee nested (k (res, s')) s')"

text \<open>
  \<open>_executeRequest\<close>: the nonce is written first, then the target is called in the state
  with the new nonce, then the outcome is logged. What the target did to the contract by
  calling back stays when the call succeeds and is undone when it fails.
\<close>

definition executeRequest :: "platform \<Rightarrow> entry \<Rightarrow> forward_request \<Rightarrow> (batch_executor, bool) body" where
  "executeRequest pf nested req s =
     (case checked_add (req_nonce req) 1 of
        Inl e \<Rightarrow> Inl (e, s)
      | Inr n \<Rightarrow>
          let s1 = s\<lparr>nonces := (nonces s)(req_from req := n),
                     invoked := invoked s @ [call_of req]\<rparr>;
              (success, t) = run_callee nested (extcall pf s1 (call_of req)) s1;
              s2 = (if success then t else s1)
          in Inr (success,
                  s2\<lparr>emitted := emitted s2 @
                       [RequestExecuted (req_from req) (req_to req) (req_nonce req) success]\<rparr>))"

text \<open>
  The loop of \<open>executeBatch\<close> over \<open>requests[i]\<close>, \<open>signatures[i]\<close>. The lengths were checked
  equal before the loop; reading past the end of \<open>signatures\<close> would be Panic(0x32).
\<close>

fun batch_loop ::
  "platform \<Rightarrow> entry \<Rightarrow> forward_request list \<Rightarrow> bytes list \<Rightarrow> (batch_executor, bool list) body" where
  "batch_loop pf nested [] sigs s = Inr ([], s)"
| "batch_loop pf nested (req # reqs) [] s = Inl (Panic IndexOutOfBounds, s)"
| "batch_loop pf nested (req # reqs) (sg # sigs) s =
     (case verify pf s req sg of
        Inl e \<Rightarrow> Inl (e, s)
      | Inr ok \<Rightarrow>
          if \<not> ok then Inl (Require ''BatchExecutor: invalid signature or nonce'', s)
          else
            (case executeRequest pf nested req s of
               Inl x \<Rightarrow> Inl x
             | Inr (r, s1) \<Rightarrow>
                 (case batch_loop pf nested reqs sigs s1 of
                    Inl x \<Rightarrow> Inl x
                  | Inr (rs, s2) \<Rightarrow> Inr (r # rs, s2))))"

definition executeBatch_body ::
  "platform \<Rightarrow> entry \<Rightarrow> address \<Rightarrow> forward_request list \<Rightarrow> bytes list
     \<Rightarrow> (batch_executor, bool list) body" where
  "executeBatch_body pf nested sender requests signatures s =
     (if length requests \<noteq> length signatures then Inl (Require ''BatchExecutor: length mismatch'', s)
      else if \<not> length requests > 0 then Inl (Require ''BatchExecutor: empty batch'', s)
      else
        (case batch_loop pf nested requests signatures s of
           Inl x \<Rightarrow> Inl x
         | Inr (results, s1) \<Rightarrow>
             Inr (results,
                  s1\<lparr>emitted := emitted s1 @
                       [BatchExecuted sender (word_of_nat (length requests))
                          (word_of_nat (length (filter id results)))]\<rparr>)))"

text \<open>
  The platform bounds how deep calls nest. \<open>executeBatch pf d\<close> is the entry point when
  targets may still nest \<open>d\<close> levels of calls back into it; a call back beyond that fails
  and changes nothing. The properties below hold for every \<open>d\<close>.
\<close>

definition no_entry :: entry where
  "no_entry sender requests signatures s = (Inl CallDepth, s)"

primrec executeBatch :: "platform \<Rightarrow> nat \<Rightarrow> entry" where
  "executeBatch pf 0 sender requests signatures =
     transact (executeBatch_body pf no_entry sender requests signatures)"
| "executeBatch pf (Suc d) sender requests signatures =
     transact (executeBatch_body pf (executeBatch pf d) sender requests signatures)"

text \<open>The entry point that the targets of \<open>executeBatch pf d\<close> call back into.\<close>

definition callbacks :: "platform \<Rightarrow> nat \<Rightarrow> entry" where
  "callbacks pf d = (case d of 0 \<Rightarrow> no_entry | Suc d' \<Rightarrow> executeBatch pf d')"

definition getNonce :: "batch_executor \<Rightarrow> address \<Rightarrow> uint256" where
  "getNonce s a = nonces s a"

text \<open>
  The ledger after the items of a list were consumed one by one: each writes \<open>nonce + 1\<close>
  for its sender. This is the ledger an item meets when the loop reaches it, as long as no
  target calls back.
\<close>

fun consumed :: "(address \<Rightarrow> uint256) \<Rightarrow> forward_request list \<Rightarrow> (address \<Rightarrow> uint256)" where
  "consumed l [] = l"
| "consumed l (req # reqs) = consumed (l(req_from req := req_nonce req + 1)) reqs"

text \<open>The state in which the target of a request is called.\<close>

definition calling_state :: "batch_executor \<Rightarrow> forward_request \<Rightarrow> batch_executor" where
  "calling_state s req =
     s\<lparr>nonces := (nonces s)(req_from req := req_nonce req + 1),
       invoked := invoked s @ [call_of req]\<rparr>"

text \<open>Targets that return without calling back.\<close>

definition quiet_targets :: "platform \<Rightarrow> bool" where
  "quiet_targets pf \<longleftrightarrow> (\<forall>t c. \<exists>ok. extcall pf t c = Return ok)"

text \<open>The \<open>RequestExecuted\<close> events of a sender.\<close>

fun executed_for :: "address \<Rightarrow> executor_event \<Rightarrow> bool" where
  "executed_for a (RequestExecuted f t n ok) = (f = a)"
| "executed_for a (BatchExecuted r n k) = False"

text \<open>
  A later state of the same contract: the domain separator is the same, the event log has
  grown at its end, and the nonce of every sender has grown by the number of
  \<open>RequestExecuted\<close> events logged for it since.
\<close>

definition advances :: "batch_executor \<Rightarrow> batch_executor \<Rightarrow> bool" where
  "advances s s' \<longleftrightarrow>
     DOMAIN_SEPARATOR s' = DOMAIN_SEPARATOR s
   \<and> (\<exists>new. emitted s' = emitted s @ new
        \<and> (\<forall>a. unat (nonces s' a) = unat (nonces s a) + length (filter (executed_for a) new)))"

section \<open>GasSponsor\<close>

datatype sponsor_event =
    Deposited address uint256
  | Claimed address uint256 "address list" uint256
  | RelayerStatusChanged address bool
  | LimitsUpdated uint256 uint256 uint256 uint256
  | Paused bool
  | OwnershipTransferred address address
  | EmergencyWithdrawal address uint256

text \<open>
  Storage of the contract, its balance (\<open>address(this).balance\<close>), and the effects a
  transaction leaves behind: the value transfers it made and the events it emitted.
\<close>

record gas_sponsor =
  owner :: address
  paused :: bool
  whitelistedRelayers :: "address \<Rightarrow> bool"
  maxPerClaim :: uint256
  dailyLimitPerRelayer :: uint256
  dailyLimitPerUser :: uint256
  globalDailyLimit :: uint256
  relayerDailyClaimed :: "address \<Rightarrow> uint256"
  relayerLastClaimDay :: "address \<Rightarrow> uint256"
  userDailySponsored :: "address \<Rightarrow> uint256"
  userLastSponsorDay :: "address \<Rightarrow> uint256"
  globalDailyClaimed :: uint256
  globalLastClaimDay :: uint256
  totalDeposited :: uint256
  totalClaimed :: uint256
  totalClaimCount :: uint256
  balance :: uint256
  paid :: "(address \<times> uint256) list"
  logged :: "sponsor_event list"

text \<open>
  The context of a call: the caller, the block timestamp, and what a plain transfer of an
  amount to a recipient does. The transfer runs the code of the recipient: it may refuse
  the transfer (\<open>send_succeeds\<close>), and while it runs it may call back into the sponsor
  (claim again, deposit, or act as owner), so that it leaves the sponsor in some other
  state than the one it was called in (\<open>recipient_leaves\<close>: any state at all, which
  covers every such code).
\<close>

record call_context =
  msg_sender :: address
  block_timestamp :: uint256
  send_succeeds :: "address \<Rightarrow> uint256 \<Rightarrow> bool"
  recipient_leaves :: "gas_sponsor \<Rightarrow> address \<Rightarrow> uint256 \<Rightarrow> gas_sponsor"

definition sponsor_constructor ::
  "call_context \<Rightarrow> uint256 \<Rightarrow> uint256 \<Rightarrow> uint256 \<Rightarrow> uint256 \<Rightarrow> gas_sponsor" where
  "sponsor_constructor cx mpc dlr dlu gdl =
     \<lparr>owner = msg_sender cx,
      paused = False,
      whitelistedRelayers = (\<lambda>_. False),
      maxPerClaim = mpc,
      dailyLimitPerRelayer = dlr,
      dailyLimitPerUser = dlu,
      globalDailyLimit = gdl,
      relayerDailyClaimed = (\<lambda>_. 0),
      relayerLastClaimDay = (\<lambda>_. 0),
      userDailySponsored = (\<lambda>_. 0),
      userLastSponsorDay = (\<lambda>_. 0),
      globalDailyClaimed = 0,
      globalLastClaimDay = 0,
      totalDeposited = 0,
      totalClaimed = 0,
      totalClaimCount = 0,
      balance = 0,
      paid = [],
      logged = []\<rparr>"

text \<open>
  \<open>deposit\<close> is payable: the value is credited to the balance before the body runs (and
  given back when the body reverts).
\<close>

definition deposit_body :: "call_context \<Rightarrow> uint256 \<Rightarrow> (gas_sponsor, unit) body" where
  "deposit_body cx msg_value s0 =
     (let s = s0\<lparr>balance := balance s0 + msg_value\<rparr>
      in if \<not> msg_value > 0 then Inl (Require ''GasSponsor: zero deposit'', s)
         else
           (case checked_add (totalDeposited s) msg_value of
              Inl e \<Rightarrow> Inl (e, s)
            | Inr t \<Rightarrow>
                Inr ((), s\<lparr>totalDeposited := t,
                           logged := logged s @ [Deposited (msg_sender cx) msg_value]\<rparr>)))"

definition deposit :: "call_context \<Rightarrow> uint256 \<Rightarrow> gas_sponsor \<Rightarrow> (revert_reason + unit) \<times> gas_sponsor" where
  "deposit cx msg_value = transact (deposit_body cx msg_value)"

text \<open>\<open>receive\<close>: what a plain transfer of value to the contract runs.\<close>

definition receive_body :: "call_context \<Rightarrow> uint256 \<Rightarrow> (gas_sponsor, unit) body" where
  "receive_body cx msg_value s0 =
     (let s = s0\<lparr>balance := balance s0 + msg_value\<rparr>
      in case checked_add (totalDeposited s) msg_value of
           Inl e \<Rightarrow> Inl (e, s)
         | Inr t \<Rightarrow>
             Inr ((), s\<lparr>totalDeposited := t,
                        logged := logged s @ [Deposited (msg_sender cx) msg_value]\<rparr>))"

definition receive :: "call_context \<Rightarrow> uint256 \<Rightarrow> gas_sponsor \<Rightarrow> (revert_reason + unit) \<times> gas_sponsor" where
  "receive cx msg_value = transact (receive_body cx msg_value)"

text \<open>\<open>block.timestamp / 1 days\<close>\<close>

definition today :: "call_context \<Rightarrow> uint256" where
  "today cx = block_timestamp cx div 86400"

text \<open>Step 1 of \<open>claim\<close>: the requested amount, capped.\<close>

definition capped :: "gas_sponsor \<Rightarrow> uint256 \<Rightarrow> uint256" where
  "capped s amount = (if amount > maxPerClaim s then maxPerClaim s else amount)"

text \<open>The three \<open>if (lastDay < today) { counter = 0; lastDay = today; }\<close> blocks of \<open>claim\<close>.\<close>

definition roll_relayer :: "uint256 \<Rightarrow> address \<Rightarrow> gas_sponsor \<Rightarrow> gas_sponsor" where
  "roll_relayer day r s =
     (if relayerLastClaimDay s r < day
      then s\<lparr>relayerDailyClaimed := (relayerDailyClaimed s)(r := 0),
             relayerLastClaimDay := (relayerLastClaimDay s)(r := day)\<rparr>
      else s)"

definition roll_user :: "uint256 \<Rightarrow> address \<Rightarrow> gas_sponsor \<Rightarrow> gas_sponsor" where
  "roll_user day u s =
     (if userLastSponsorDay s u < day
      then s\<lparr>userDailySponsored := (userDailySponsored s)(u := 0),
             userLastSponsorDay := (userLastSponsorDay s)(u := day)\<rparr>
      else s)"

definition roll_global :: "uint256 \<Rightarrow> gas_sponsor \<Rightarrow> gas_sponsor" where
  "roll_global day s =
     (if globalLastClaimDay s < day
      then s\<lparr>globalDailyClaimed := 0, globalLastClaimDay := day\<rparr>
      else s)"

text \<open>Step 3, the loop that resets and checks each user.\<close>

fun check_users :: "uint256 \<Rightarrow> uint256 \<Rightarrow> address list \<Rightarrow> (gas_sponsor, unit) body" where
  "check_users day perUserCost [] s = Inr ((), s)"
| "check_users day perUserCost (u # us) s =
     (let s1 = roll_user day u s
      in case checked_add (userDailySponsored s1 u) perUserCost of
           Inl e \<Rightarrow> Inl (e, s1)
         | Inr t \<Rightarrow>
             if \<not> t \<le> dailyLimitPerUser s1
             then Inl (Require ''GasSponsor: user daily limit reached'', s1)
             else check_users day perUserCost us s1)"

text \<open>Step 6, the loop \<open>userDailySponsored[users[i]] += perUserCost\<close>.\<close>

fun credit_users :: "uint256 \<Rightarrow> address list \<Rightarrow> (gas_sponsor, unit) body" where
  "credit_users perUserCost [] s = Inr ((), s)"
| "credit_users perUserCost (u # us) s =
     (case checked_add (userDailySponsored s u) perUserCost of
        Inl e \<Rightarrow> Inl (e, s)
      | Inr v \<Rightarrow>
          credit_users perUserCost us (s\<lparr>userDailySponsored := (userDailySponsored s)(u := v)\<rparr>))"

text \<open>
  Step 7 once the transfer is accepted: the value has left the balance, the code of the
  recipient runs on the sponsor, and when it returns the event is logged.
\<close>

definition after_transfer :: "call_context \<Rightarrow> uint256 \<Rightarrow> address list \<Rightarrow> gas_sponsor \<Rightarrow> gas_sponsor" where
  "after_transfer cx reimbursement users t =
     (let u = recipient_leaves cx t (msg_sender cx) reimbursement
      in u\<lparr>logged := logged u @
             [Claimed (msg_sender cx) reimbursement users (word_of_nat (length users))]\<rparr>)"

text \<open>Steps 6 and 7: the counters, the totals, then the transfer and the event.\<close>

definition claim_commit :: "call_context \<Rightarrow> uint256 \<Rightarrow> uint256 \<Rightarrow> address list \<Rightarrow> (gas_sponsor, unit) body" where
  "claim_commit cx reimbursement perUserCost users s =
     (case checked_add (relayerDailyClaimed s (msg_sender cx)) reimbursement of
        Inl e \<Rightarrow> Inl (e, s)
      | Inr rc \<Rightarrow>
     (case credit_users perUserCost users
             (s\<lparr>relayerDailyClaimed := (relayerDailyClaimed s)(msg_sender cx := rc)\<rparr>) of
        Inl x \<Rightarrow> Inl x
      | Inr (_, s1) \<Rightarrow>
     (case checked_add (globalDailyClaimed s1) reimbursement of
        Inl e \<Rightarrow> Inl (e, s1)
      | Inr g \<Rightarrow>
     (case checked_add (totalClaimed s1) reimbursement of
        Inl e \<Rightarrow> Inl (e, s1\<lparr>globalDailyClaimed := g\<rparr>)
      | Inr tc \<Rightarrow>
     (case checked_add (totalClaimCount s1) 1 of
        Inl e \<Rightarrow> Inl (e, s1\<lparr>globalDailyClaimed := g, totalClaimed := tc\<rparr>)
      | Inr n \<Rightarrow>
          let s2 = s1\<lparr>globalDailyClaimed := g, totalClaimed := tc, totalClaimCount := n\<rparr>
          in if \<not> send_succeeds cx (msg_sender cx) reimbursement
             then Inl (Require ''GasSponsor: transfer failed'', s2)
             else
               Inr ((), after_transfer cx reimbursement users
                          (s2\<lparr>balance := balance s2 - reimbursement,
                              paid := paid s2 @ [(msg_sender cx, reimbursement)]\<rparr>)))))))"

text \<open>
  \<open>claim\<close>, with its modifiers \<open>onlyWhitelistedRelayer\<close> and \<open>whenNotPaused\<close> in the order
  of the declaration.
\<close>

definition claim_body :: "call_context \<Rightarrow> uint256 \<Rightarrow> address list \<Rightarrow> (gas_sponsor, unit) body" where
  "claim_body cx amount users s =
     (if \<not> whitelistedRelayers s (msg_sender cx) then Inl (Require ''GasSponsor: not whitelisted'', s)
      else if paused s then Inl (Require ''GasSponsor: paused'', s)
      else
        let reimbursement = capped s amount;
            s1 = roll_relayer (today cx) (msg_sender cx) s
        in
     (case checked_add (relayerDailyClaimed s1 (msg_sender cx)) reimbursement of
        Inl e \<Rightarrow> Inl (e, s1)
      | Inr t \<Rightarrow>
          if \<not> t \<le> dailyLimitPerRelayer s1
          then Inl (Require ''GasSponsor: relayer daily limit reached'', s1)
          else
     (case checked_div reimbursement (length users) of
        Inl e \<Rightarrow> Inl (e, s1)
      | Inr perUserCost \<Rightarrow>
     (case check_users (today cx) perUserCost users s1 of
        Inl x \<Rightarrow> Inl x
      | Inr (_, s2) \<Rightarrow>
          let s3 = roll_global (today cx) s2
          in
     (case checked_add (globalDailyClaimed s3) reimbursement of
        Inl e \<Rightarrow> Inl (e, s3)
      | Inr g \<Rightarrow>
          if \<not> g \<le> globalDailyLimit s3
          then Inl (Require ''GasSponsor: global daily limit reached'', s3)
          else if \<not> balance s3 \<ge> reimbursement
          then Inl (Require ''GasSponsor: insufficient pool funds'', s3)
          else claim_commit cx reimbursement perUserCost users s3)))))"

definition claim ::
  "call_context \<Rightarrow> uint256 \<Rightarrow> address list \<Rightarrow> gas_sponsor \<Rightarrow> (revert_reason + unit) \<times> gas_sponsor" where
  "claim cx amount users = transact (claim_body cx amount users)"

text \<open>The loop of \<open>estimateReimbursement\<close> over the users; it reads, and writes nothing.\<close>

fun estimate_users :: "gas_sponsor \<Rightarrow> uint256 \<Rightarrow> uint256 \<Rightarrow> address list \<Rightarrow> revert_reason + bool" where
  "estimate_users s day perUserCost [] = Inr True"
| "estimate_users s day perUserCost (u # us) =
     (let userClaimed = (if userLastSponsorDay s u < day then 0 else userDailySponsored s u)
      in case checked_add userClaimed perUserCost of
           Inl e \<Rightarrow> Inl e
         | Inr t \<Rightarrow>
             if t > dailyLimitPerUser s then Inr False
             else estimate_users s day perUserCost us)"

text \<open>
  \<open>estimateReimbursement\<close> is a \<open>view\<close> function: it takes the state and returns a value,
  or reverts on a Panic.
\<close>

definition estimateReimbursement ::
  "call_context \<Rightarrow> gas_sponsor \<Rightarrow> uint256 \<Rightarrow> address \<Rightarrow> address list \<Rightarrow> revert_reason + (uint256 \<times> bool)" where
  "estimateReimbursement cx s amount relayer users =
     (let reimbursement = (if amount > maxPerClaim s then maxPerClaim s else amount)
      in if balance s < reimbursement then Inr (0, False)
         else
           let relayerClaimed =
                 (if relayerLastClaimDay s relayer < today cx then 0 else relayerDailyClaimed s relayer)
           in
     (case checked_add relayerClaimed reimbursement of
        Inl e \<Rightarrow> Inl e
      | Inr t \<Rightarrow>
          if t > dailyLimitPerRelayer s then Inr (0, False)
          else
            let globalClaimed = (if globalLastClaimDay s < today cx then 0 else globalDailyClaimed s)
            in
     (case checked_add globalClaimed reimbursement of
        Inl e \<Rightarrow> Inl e
      | Inr g \<Rightarrow>
          if g > globalDailyLimit s then Inr (0, False)
          else
     (case checked_div reimbursement (length users) of
        Inl e \<Rightarrow> Inl e
      | Inr perUserCost \<Rightarrow>
     (case estimate_users s (today cx) perUserCost users of
        Inl e \<Rightarrow> Inl e
      | Inr ok \<Rightarrow> if ok then Inr (reimbursement, True) else Inr (0, False))))))"

text \<open>
  The daily counters as a reader sees them on a given day: a counter whose day stamp is
  older than the day counts as 0 (this is what the \<open>get...DailyRemaining\<close> views compute
  before subtracting).
\<close>

definition relayer_used :: "gas_sponsor \<Rightarrow> uint256 \<Rightarrow> address \<Rightarrow> uint256" where
  "relayer_used s day r = (if relayerLastClaimDay s r < day then 0 else relayerDailyClaimed s r)"

definition user_used :: "gas_sponsor \<Rightarrow> uint256 \<Rightarrow> address \<Rightarrow> uint256" where
  "user_used s day u = (if userLastSponsorDay s u < day then 0 else userDailySponsored s u)"

definition global_used :: "gas_sponsor \<Rightarrow> uint256 \<Rightarrow> uint256" where
  "global_used s day = (if globalLastClaimDay s < day then 0 else globalDailyClaimed s)"

text \<open>
  The state after the reset blocks of the users loop have run for every user of the list:
  a listed user whose day stamp was older than the day has counter 0 and the day as stamp.
\<close>

definition rolled_users :: "uint256 \<Rightarrow> address list \<Rightarrow> gas_sponsor \<Rightarrow> gas_sponsor" where
  "rolled_users day users s =
     s\<lparr>userDailySponsored := (\<lambda>u. if u \<in> set users then user_used s day u else userDailySponsored s u),
       userLastSponsorDay :=
         (\<lambda>u. if u \<in> set users \<and> userLastSponsorDay s u < day then day else userLastSponsorDay s u)\<rparr>"

text \<open>
  Steps 2 to 6 of the claim protocol as the specification words them, on the counters as
  read on the day of the call: submitter cap, a non-empty list, the cap of every
  beneficiary for its share, global cap, pool balance.
\<close>

definition checks_pass :: "call_context \<Rightarrow> gas_sponsor \<Rightarrow> uint256 \<Rightarrow> address \<Rightarrow> address list \<Rightarrow> bool" where
  "checks_pass cx s amount relayer users \<longleftrightarrow>
     unat (relayer_used s (today cx) relayer) + unat (capped s amount) \<le> unat (dailyLimitPerRelayer s)
   \<and> users \<noteq> []
   \<and> (\<forall>u\<in>set users. unat (user_used s (today cx) u) + unat (capped s amount) div length users
          \<le> unat (dailyLimitPerUser s))
   \<and> unat (global_used s (today cx)) + unat (capped s amount) \<le> unat (globalDailyLimit s)
   \<and> capped s amount \<le> balance s"

text \<open>
  The additions of step 6 that no check of the protocol bounds: a user listed several times
  is credited several times, and the two running totals grow with every claim. Each is a
  checked addition.
\<close>

definition bookkeeping_fits :: "call_context \<Rightarrow> gas_sponsor \<Rightarrow> uint256 \<Rightarrow> address list \<Rightarrow> bool" where
  "bookkeeping_fits cx s amount users \<longleftrightarrow>
     (\<forall>u\<in>set users. unat (user_used s (today cx) u)
          + count_list users u * (unat (capped s amount) div length users) < 2 ^ 256)
   \<and> unat (totalClaimed s) + unat (capped s amount) < 2 ^ 256
   \<and> unat (totalClaimCount s) + 1 < 2 ^ 256"

text \<open>A recipient whose code does not call back into the sponsor.\<close>

definition quiet_recipient :: "call_context \<Rightarrow> bool" where
  "quiet_recipient cx \<longleftrightarrow> (\<forall>t a v. recipient_leaves cx t a v = t)"

text \<open>
  What a claim has written when it hands the transfer to the relayer, against the state
  \<open>s\<close> it was called in: the counters (from their values as read on the day of the call),
  the totals, and the value that has left.
\<close>

definition claim_writes :: "call_context \<Rightarrow> uint256 \<Rightarrow> address list \<Rightarrow> gas_sponsor \<Rightarrow> gas_sponsor \<Rightarrow> bool" where
  "claim_writes cx amount users s t \<longleftrightarrow>
     unat (relayerDailyClaimed t (msg_sender cx))
       = unat (relayer_used s (today cx) (msg_sender cx)) + unat (capped s amount)
   \<and> (\<forall>u\<in>set users. unat (userDailySponsored t u)
         = unat (user_used s (today cx) u)
           + count_list users u * (unat (capped s amount) div length users))
   \<and> (\<forall>u. u \<notin> set users \<longrightarrow> userDailySponsored t u = userDailySponsored s u)
   \<and> unat (globalDailyClaimed t) = unat (global_used s (today cx)) + unat (capped s amount)
   \<and> unat (totalClaimed t) = unat (totalClaimed s) + unat (capped s amount)
   \<and> unat (totalClaimCount t) = unat (totalClaimCount s) + 1
   \<and> balance t = balance s - capped s amount
   \<and> paid t = paid s @ [(msg_sender cx, capped s amount)]
   \<and> logged t = logged s"

text \<open>
  The additions \<open>estimateReimbursement\<close> makes before it compares: on a list that is not
  empty it answers, without a Panic, as soon as they fit in 256 bits.
\<close>

definition estimate_fits :: "call_context \<Rightarrow> gas_sponsor \<Rightarrow> uint256 \<Rightarrow> address \<Rightarrow> address list \<Rightarrow> bool" where
  "estimate_fits cx s amount relayer users \<longleftrightarrow>
     unat (relayer_used s (today cx) relayer) + unat (capped s amount) < 2 ^ 256
   \<and> unat (global_used s (today cx)) + unat (capped s amount) < 2 ^ 256
   \<and> (\<forall>u\<in>set users. unat (user_used s (today cx) u)
          + unat (capped s amount) div length users < 2 ^ 256)"

text \<open>\<open>setRelayer\<close>, owner only.\<close>

definition setRelayer_body :: "call_context \<Rightarrow> address \<Rightarrow> bool \<Rightarrow> (gas_sponsor, unit) body" where
  "setRelayer_body cx relayer status s =
     (if msg_sender cx \<noteq> owner s then Inl (Require ''GasSponsor: not owner'', s)
      else
        Inr ((), s\<lparr>whitelistedRelayers := (whitelistedRelayers s)(relayer := status),
                   logged := logged s @ [RelayerStatusChanged relayer status]\<rparr>))"

definition setRelayer :: "call_context \<Rightarrow> address \<Rightarrow> bool \<Rightarrow> gas_sponsor \<Rightarrow> (revert_reason + unit) \<times> gas_sponsor" where
  "setRelayer cx relayer status = transact (setRelayer_body cx relayer status)"

section \<open>Example inputs\<close>

text \<open>
  A toy platform for running the definitions: every hash is 0, and a signature recovers to
  address 1 when its last byte is 27 and fails to recover otherwise. Targets accept every
  call and return without calling back.
\<close>

definition example_platform :: platform where
  "example_platform =
     \<lparr>keccak256 = (\<lambda>_. 0),
      ecrecover = (\<lambda>h v r s. if v = 27 then 1 else 0),
      chainid = 11155111,
      extcall = (\<lambda>_ _. Return True)\<rparr>"

definition example_signature :: bytes where
  "example_signature = replicate 64 0 @ [27]"

definition example_request :: "nat \<Rightarrow> forward_request" where
  "example_request n =
     \<lparr>req_from = 1, req_to = 2, req_value = 0, req_gas = 100000, req_nonce = word_of_nat n,
      req_data = []\<rparr>"

definition example_executor :: batch_executor where
  "example_executor = constructor example_platform 3"

text \<open>The executor after the batch made of the request with nonce 0 alone.\<close>

definition example_executor_used :: batch_executor where
  "example_executor_used =
     snd (executeBatch example_platform 0 9 [example_request 0] [example_signature] example_executor)"

text \<open>
  A target that calls back: called in a state where the nonce of address 1 is 1, it has
  the request with nonce 1 executed by a nested batch.
\<close>

definition example_reentrant_platform :: platform where
  "example_reentrant_platform =
     example_platform
       \<lparr>extcall := (\<lambda>t c. if nonces t 1 = 1
                          then Reenter 2 [example_request 1] [example_signature] (\<lambda>_. Return True)
                          else Return True)\<rparr>"

text \<open>
  A sponsor on day 20000: the owner (address 9) deploys it with cap 5 per claim and daily
  limits 100 (relayer), 50 (user) and 1000 (global), whitelists the relayer at address 7
  and deposits \<open>v\<close>. One context has the relayer accept its reimbursement, the other has
  it refuse the transfer; neither calls back.
\<close>

definition example_owner_context :: call_context where
  "example_owner_context =
     \<lparr>msg_sender = 9, block_timestamp = 1728000005, send_succeeds = (\<lambda>_ _. True),
      recipient_leaves = (\<lambda>t _ _. t)\<rparr>"

definition example_context :: call_context where
  "example_context =
     \<lparr>msg_sender = 7, block_timestamp = 1728000005, send_succeeds = (\<lambda>_ _. True),
      recipient_leaves = (\<lambda>t _ _. t)\<rparr>"

definition example_refusing_context :: call_context where
  "example_refusing_context =
     \<lparr>msg_sender = 7, block_timestamp = 1728000005, send_succeeds = (\<lambda>_ _. False),
      recipient_leaves = (\<lambda>t _ _. t)\<rparr>"

definition example_sponsor_funded :: "uint256 \<Rightarrow> gas_sponsor" where
  "example_sponsor_funded v =
     snd (deposit example_owner_context v
       (snd (setRelayer example_owner_context 7 True
         (sponsor_constructor example_owner_context 5 100 50 1000))))"

definition example_sponsor :: gas_sponsor where
  "example_sponsor = example_sponsor_funded 100"

text \<open>
  A relayer contract whose code, on receiving a reimbursement, claims again (and accepts
  that second reimbursement without claiming a third time).
\<close>

definition example_reentrant_context :: call_context where
  "example_reentrant_context =
     \<lparr>msg_sender = 7, block_timestamp = 1728000005, send_succeeds = (\<lambda>_ _. True),
      recipient_leaves = (\<lambda>t _ _. snd (claim example_context 6 [11] t))\<rparr>"

section \<open>Properties of BatchExecutor\<close>

lemma checked_add_Inr:
  "checked_add a b = Inr c \<Longrightarrow> c = a + b \<and> unat c = unat a + unat b"
  by (auto simp: checked_add_def unat_word_ariths split: if_splits)

lemma transact_revert: "transact body s = (Inl e, s') \<Longrightarrow> s' = s"
  by (auto simp: transact_def split: sum.splits prod.splits)

lemma verify_cong:
  "DOMAIN_SEPARATOR s = DOMAIN_SEPARATOR t \<Longrightarrow> nonces s = nonces t \<Longrightarrow> verify pf s = verify pf t"
  by (intro ext) (simp add: verify_def digest_def split: sum.splits)

text \<open>
  The three outcomes of \<open>verify\<close>: it reverts on a signature that is not 65 bytes long or
  that recovers to the zero address, and otherwise answers whether the recovered signer is
  the sender and the nonce is the current one. Which address a signature made over another
  digest recovers to is a matter of the signature scheme, not of this contract.
\<close>

lemma verify_outcome:
  "verify pf s req sg =
     (if length sg \<noteq> 65 then Inl (Require ''BatchExecutor: invalid signature length'')
      else if ecrecover pf (digest pf s req) (sg ! 64) (be_word (take 32 sg))
                (be_word (take 32 (drop 32 sg))) = 0
        then Inl (Require ''BatchExecutor: invalid signature'')
      else Inr (ecrecover pf (digest pf s req) (sg ! 64) (be_word (take 32 sg))
                  (be_word (take 32 (drop 32 sg))) = req_from req
                \<and> req_nonce req = nonces s (req_from req)))"
  by (simp add: verify_def recoverSigner_def Let_def)

lemma verify_True_nonce: "verify pf s req sg = Inr True \<Longrightarrow> req_nonce req = nonces s (req_from req)"
  by (auto simp: verify_def split: sum.splits)

subsection \<open>The ledger follows the event log, also through calls back\<close>

lemma advances_refl: "advances s s"
  by (simp add: advances_def)

lemma advances_trans: "advances s t \<Longrightarrow> advances t u \<Longrightarrow> advances s u"
  by (auto simp: advances_def)

lemma advances_mono: "advances s s' \<Longrightarrow> unat (nonces s a) \<le> unat (nonces s' a)"
  by (auto simp: advances_def)

lemma run_callee_advances:
  assumes "\<And>a r g s. advances s (snd (nested a r g s))"
  shows "advances s (snd (run_callee nested c s))"
proof (induction c arbitrary: s)
  case (Return ok)
  show ?case by (simp add: advances_refl)
next
  case (Reenter a reqs sigs k)
  obtain res s' where n: "nested a reqs sigs s = (res, s')" by (cases "nested a reqs sigs s")
  have "advances s s'" using assms [of s a reqs sigs] n by simp
  moreover have "advances s' (snd (run_callee nested (k (res, s')) s'))"
    by (rule Reenter.IH) simp
  ultimately show ?case using n by (simp add: advances_trans)
qed

lemma executeRequest_Inr:
  assumes "executeRequest pf nested req s = Inr (ok, s')"
  shows "unat (req_nonce req + 1) = unat (req_nonce req) + 1"
    and "ok = fst (run_callee nested (extcall pf (calling_state s req) (call_of req))
                     (calling_state s req))"
    and "s' = (if ok
               then snd (run_callee nested (extcall pf (calling_state s req) (call_of req))
                           (calling_state s req))
               else calling_state s req)
              \<lparr>emitted :=
                 emitted (if ok
                   then snd (run_callee nested (extcall pf (calling_state s req) (call_of req))
                              (calling_state s req))
                   else calling_state s req)
                 @ [RequestExecuted (req_from req) (req_to req) (req_nonce req) ok]\<rparr>"
  using assms
  by (auto simp: executeRequest_def calling_state_def Let_def
           split: sum.splits prod.splits if_splits dest!: checked_add_Inr)


lemma calling_state_advance:
  assumes "unat (req_nonce req + 1) = unat (req_nonce req) + 1"
    and "req_nonce req = nonces s (req_from req)"
    and "advances (calling_state s req) t"
  shows "advances s
           (t\<lparr>emitted := emitted t @ [RequestExecuted (req_from req) (req_to req) (req_nonce req) ok]\<rparr>)"
proof -
  from assms(3) obtain new where
    ds: "DOMAIN_SEPARATOR t = DOMAIN_SEPARATOR s" and
    em: "emitted t = emitted s @ new" and
    cnt: "\<And>a. unat (nonces t a)
            = unat (nonces (calling_state s req) a) + length (filter (executed_for a) new)"
    by (auto simp: advances_def calling_state_def)
  have "unat (nonces t a)
          = unat (nonces s a)
            + length (filter (executed_for a)
                (new @ [RequestExecuted (req_from req) (req_to req) (req_nonce req) ok]))" for a
    using cnt [of a] assms(1,2) by (simp add: calling_state_def)
  with ds em show ?thesis
    unfolding advances_def
    by (intro conjI exI [of _ "new @ [RequestExecuted (req_from req) (req_to req) (req_nonce req) ok]"])
       simp_all
qed

lemma executeRequest_advances:
  assumes "\<And>a r g s. advances s (snd (nested a r g s))"
    and "req_nonce req = nonces s (req_from req)"
    and "executeRequest pf nested req s = Inr (ok, s')"
  shows "advances s s'"
proof -
  note e = executeRequest_Inr [OF assms(3)]
  let ?t = "calling_state s req"
  let ?u = "if ok then snd (run_callee nested (extcall pf ?t (call_of req)) ?t) else ?t"
  have "advances ?t ?u"
    using run_callee_advances [of nested ?t, OF assms(1)] by (simp add: advances_refl)
  from calling_state_advance [OF e(1) assms(2) this, of ok] e(3) show ?thesis by simp
qed

lemma batch_loop_advances:
  "\<forall>a r g s. advances s (snd (nested a r g s)) \<Longrightarrow>
   batch_loop pf nested reqs sigs s = Inr (rs, s') \<Longrightarrow>
   advances s s' \<and> length rs = length reqs"
proof (induction pf nested reqs sigs s arbitrary: rs s' rule: batch_loop.induct)
  case (1 pf nested sigs s)
  then show ?case by (simp add: advances_refl)
next
  case (2 pf nested req reqs s)
  then show ?case by simp
next
  case (3 pf nested req reqs sg sigs s)
  from "3.prems"(2) have v: "verify pf s req sg = Inr True"
    by (auto split: sum.splits if_splits)
  from "3.prems"(2) v obtain ok s1 rs1 where
    ex: "executeRequest pf nested req s = Inr (ok, s1)" and
    rest: "batch_loop pf nested reqs sigs s1 = Inr (rs1, s')" and rs: "rs = ok # rs1"
    by (auto split: sum.splits)
  have "advances s s1"
    using "3.prems"(1) by (intro executeRequest_advances [OF _ verify_True_nonce [OF v] ex]) simp
  moreover from "3.IH" [OF v _ ex refl "3.prems"(1) rest]
  have "advances s1 s' \<and> length rs1 = length reqs" by simp
  ultimately show ?case using rs by (auto intro: advances_trans)
qed

lemma entry_advances:
  assumes "\<And>a r g s. advances s (snd (nested a r g s))"
  shows "advances s (snd (transact (executeBatch_body pf nested sender reqs sigs) s))"
proof (cases "executeBatch_body pf nested sender reqs sigs s")
  case (Inl x)
  then show ?thesis by (cases x) (simp add: transact_def advances_refl)
next
  case (Inr y)
  obtain rs s' where y: "y = (rs, s')" by (cases y)
  from Inr y obtain s1 where
    run: "batch_loop pf nested reqs sigs s = Inr (rs, s1)" and
    s': "s' = s1\<lparr>emitted := emitted s1 @
                 [BatchExecuted sender (word_of_nat (length reqs))
                    (word_of_nat (length (filter id rs)))]\<rparr>"
    by (auto simp: executeBatch_body_def split: if_splits sum.splits)
  from assms have "\<forall>a r g s. advances s (snd (nested a r g s))" by simp
  from batch_loop_advances [OF this run] have "advances s s1" by simp
  then have "advances s s'" unfolding s' advances_def by auto
  with Inr y show ?thesis by (simp add: transact_def)
qed

lemma executeBatch_advances: "advances s (snd (executeBatch pf d sender reqs sigs s))"
proof (induction d arbitrary: s sender reqs sigs)
  case 0
  show ?case by (simp add: entry_advances no_entry_def advances_refl)
next
  case (Suc d)
  show ?case by (simp add: entry_advances Suc.IH)
qed

lemma callbacks_advances: "advances s (snd (callbacks pf d a r g s))"
  by (cases d) (simp_all add: callbacks_def no_entry_def advances_refl executeBatch_advances)

lemma executeBatch_unfold:
  "executeBatch pf d sender reqs sigs
     = transact (executeBatch_body pf (callbacks pf d) sender reqs sigs)"
  by (cases d) (simp_all add: callbacks_def)

subsection \<open>The loop, item by item\<close>

lemma batch_loop_invalid_item:
  "i < length reqs \<Longrightarrow>
   \<forall>rs t. batch_loop pf nested (take i reqs) (take i sigs) s = Inr (rs, t)
      \<longrightarrow> verify pf t (reqs ! i) (sigs ! i) \<noteq> Inr True \<Longrightarrow>
   \<exists>x. batch_loop pf nested reqs sigs s = Inl x"
proof (induction reqs arbitrary: i sigs s)
  case Nil
  then show ?case by simp
next
  case (Cons req reqs)
  show ?case
  proof (cases sigs)
    case Nil
    then show ?thesis by simp
  next
    case sigs: (Cons sg sigs')
    show ?thesis
    proof (cases i)
      case 0
      with Cons.prems(2) sigs have "verify pf s req sg \<noteq> Inr True" by simp
      then show ?thesis using sigs by (auto split: sum.splits)
    next
      case (Suc j)
      show ?thesis
      proof (cases "\<exists>r s1. verify pf s req sg = Inr True \<and> executeRequest pf nested req s = Inr (r, s1)")
        case False
        then show ?thesis using sigs by (auto split: sum.splits)
      next
        case True
        then obtain r s1 where v: "verify pf s req sg = Inr True"
          and ex: "executeRequest pf nested req s = Inr (r, s1)" by blast
        have j: "j < length reqs" using Cons.prems(1) Suc by simp
        have "\<forall>rs t. batch_loop pf nested (take j reqs) (take j sigs') s1 = Inr (rs, t)
                \<longrightarrow> verify pf t (reqs ! j) (sigs' ! j) \<noteq> Inr True"
        proof (intro allI impI)
          fix rs t assume "batch_loop pf nested (take j reqs) (take j sigs') s1 = Inr (rs, t)"
          then have "batch_loop pf nested (take i (req # reqs)) (take i sigs) s = Inr (r # rs, t)"
            using v ex Suc sigs by simp
          with Cons.prems(2) show "verify pf t (reqs ! j) (sigs' ! j) \<noteq> Inr True"
            using Suc sigs by auto
        qed
        from Cons.IH [OF j this] obtain x where "batch_loop pf nested reqs sigs' s1 = Inl x"
          by blast
        then show ?thesis using v ex sigs by simp
      qed
    qed
  qed
qed



lemma batch_loop_stale:
  "\<forall>a r g s. advances s (snd (nested a r g s)) \<Longrightarrow>
   i < length reqs \<Longrightarrow> unat (req_nonce (reqs ! i)) < unat (nonces s (req_from (reqs ! i))) \<Longrightarrow>
   \<exists>x. batch_loop pf nested reqs sigs s = Inl x"
proof (induction pf nested reqs sigs s arbitrary: i rule: batch_loop.induct)
  case (1 pf nested sigs s)
  then show ?case by simp
next
  case (2 pf nested req reqs s)
  then show ?case by simp
next
  case (3 pf nested req reqs sg sigs s)
  show ?case
  proof (cases "\<exists>ok s1. verify pf s req sg = Inr True \<and> executeRequest pf nested req s = Inr (ok, s1)")
    case False
    then show ?thesis by (auto split: sum.splits)
  next
    case True
    then obtain ok s1 where v: "verify pf s req sg = Inr True"
      and ex: "executeRequest pf nested req s = Inr (ok, s1)" by blast
    note nonce = verify_True_nonce [OF v]
    have adv: "advances s s1"
      using "3.prems"(1) by (intro executeRequest_advances [OF _ nonce ex]) simp
    show ?thesis
    proof (cases i)
      case 0
      with "3.prems" nonce show ?thesis by simp
    next
      case (Suc j)
      with "3.prems" have j: "j < length reqs"
        and st: "unat (req_nonce (reqs ! j)) < unat (nonces s (req_from (reqs ! j)))" by simp_all
      have "unat (req_nonce (reqs ! j)) < unat (nonces s1 (req_from (reqs ! j)))"
        using st advances_mono [OF adv, of "req_from (reqs ! j)"] by simp
      from "3.IH" [OF v _ ex refl "3.prems"(1) j this] obtain x where
        "batch_loop pf nested reqs sigs s1 = Inl x" by auto
      then show ?thesis using v ex by simp
    qed
  qed
qed

subsection \<open>Targets that do not call back\<close>

lemma quiet_run:
  "quiet_targets pf \<Longrightarrow> snd (run_callee nested (extcall pf t c) t) = t"
proof -
  assume "quiet_targets pf"
  then obtain ok where "extcall pf t c = Return ok" unfolding quiet_targets_def by blast
  then show ?thesis by simp
qed

lemma quiet_executeRequest:
  assumes "quiet_targets pf" and "executeRequest pf nested req s = Inr (ok, s')"
  shows "nonces s' = (nonces s)(req_from req := req_nonce req + 1)"
    and "DOMAIN_SEPARATOR s' = DOMAIN_SEPARATOR s"
  using executeRequest_Inr(3) [OF assms(2)] quiet_run [OF assms(1)]
  by (simp_all add: calling_state_def)

lemma quiet_batch_loop:
  "quiet_targets pf \<Longrightarrow> batch_loop pf nested reqs sigs s = Inr (rs, s') \<Longrightarrow>
   nonces s' = consumed (nonces s) reqs \<and> DOMAIN_SEPARATOR s' = DOMAIN_SEPARATOR s
   \<and> (\<forall>a. unat (nonces s' a)
            = unat (nonces s a) + length (filter (\<lambda>r. req_from r = a) reqs))"
proof (induction pf nested reqs sigs s arbitrary: rs s' rule: batch_loop.induct)
  case (1 pf nested sigs s)
  then show ?case by simp
next
  case (2 pf nested req reqs s)
  then show ?case by simp
next
  case (3 pf nested req reqs sg sigs s)
  from "3.prems"(2) have v: "verify pf s req sg = Inr True"
    by (auto split: sum.splits if_splits)
  from "3.prems"(2) v obtain ok s1 rs1 where
    ex: "executeRequest pf nested req s = Inr (ok, s1)" and
    rest: "batch_loop pf nested reqs sigs s1 = Inr (rs1, s')"
    by (auto split: sum.splits)
  note q = quiet_executeRequest [OF "3.prems"(1) ex]
  note e = executeRequest_Inr(1) [OF ex]
  note nonce = verify_True_nonce [OF v]
  note ih = "3.IH" [OF v _ ex refl "3.prems"(1) rest, simplified]
  have cnt: "unat (nonces s' a)
      = unat (nonces s a) + length (filter (\<lambda>r. req_from r = a) (req # reqs))" for a
    using ih q(1) e nonce by (cases "req_from req = a") auto
  show ?case using ih q cnt by simp
qed





text \<open>
  Claim C1. A batch with an item whose verification does not succeed when the loop reaches
  it is rejected as a whole, wherever the item stands and however many items passed before
  it: the call reverts and the contract is in the state before the call, so no nonce is
  consumed, no call to a target remains and no event is logged. The state in which the
  loop reaches item \<open>i\<close> is the one the loop leaves after the \<open>i\<close> items before it, whatever
  their targets did by calling back; when no target calls back, its ledger is the ledger
  of the call with \<open>nonce + 1\<close> written for each of those items.
\<close>

theorem executeBatch_rejects_invalid_item:
  assumes "i < length requests"
    and "(\<forall>rs t. batch_loop pf (callbacks pf d) (take i requests) (take i signatures) s = Inr (rs, t)
             \<longrightarrow> verify pf t (requests ! i) (signatures ! i) \<noteq> Inr True)
         \<or> (quiet_targets pf
             \<and> verify pf (s\<lparr>nonces := consumed (nonces s) (take i requests)\<rparr>)
                  (requests ! i) (signatures ! i) \<noteq> Inr True)"
  shows "\<exists>e s'. executeBatch pf d sender requests signatures s = (Inl e, s') \<and> s' = s
           \<and> (\<forall>a. getNonce s' a = getNonce s a) \<and> invoked s' = invoked s"
proof -
  have "\<forall>rs t. batch_loop pf (callbacks pf d) (take i requests) (take i signatures) s = Inr (rs, t)
             \<longrightarrow> verify pf t (requests ! i) (signatures ! i) \<noteq> Inr True"
  proof (intro allI impI)
    fix rs t
    assume run: "batch_loop pf (callbacks pf d) (take i requests) (take i signatures) s = Inr (rs, t)"
    from assms(2) show "verify pf t (requests ! i) (signatures ! i) \<noteq> Inr True"
    proof
      assume "\<forall>rs t. batch_loop pf (callbacks pf d) (take i requests) (take i signatures) s
                 = Inr (rs, t) \<longrightarrow> verify pf t (requests ! i) (signatures ! i) \<noteq> Inr True"
      with run show ?thesis by blast
    next
      assume q: "quiet_targets pf
             \<and> verify pf (s\<lparr>nonces := consumed (nonces s) (take i requests)\<rparr>)
                  (requests ! i) (signatures ! i) \<noteq> Inr True"
      from quiet_batch_loop [OF q [THEN conjunct1] run]
      have "verify pf t = verify pf (s\<lparr>nonces := consumed (nonces s) (take i requests)\<rparr>)"
        by (intro verify_cong) simp_all
      with q show ?thesis by simp
    qed
  qed
  from batch_loop_invalid_item [OF assms(1) this] obtain x where
    "batch_loop pf (callbacks pf d) requests signatures s = Inl x" by blast
  then show ?thesis
    by (cases x) (simp add: executeBatch_unfold transact_def executeBatch_body_def)
qed

lemma example_extcall: "extcall example_platform t c = Return True"
  by (simp add: example_platform_def)

lemma example_quiet: "quiet_targets example_platform"
  by (auto simp: quiet_targets_def example_extcall)

lemma example_recover:
  "recoverSigner example_platform dg example_signature = Inr 1"
  by (simp add: recoverSigner_def example_platform_def example_signature_def nth_append)

lemma example_verify:
  "verify example_platform s (example_request n) example_signature
     = Inr (word_of_nat n = nonces s 1)"
  by (simp add: verify_def example_request_def example_recover)

theorem executeBatch_rejects_invalid_item_witness:
  "(1::nat) < length [example_request 0, example_request 5]
   \<and> quiet_targets example_platform
   \<and> verify example_platform
        (example_executor\<lparr>nonces := consumed (nonces example_executor)
            (take 1 [example_request 0, example_request 5])\<rparr>)
        ([example_request 0, example_request 5] ! 1) ([example_signature, example_signature] ! 1)
       \<noteq> Inr True
   \<and> (\<exists>e. executeBatch example_platform 1 9 [example_request 0, example_request 5]
             [example_signature, example_signature] example_executor = (Inl e, example_executor))"
proof -
  have a: "(1::nat) < length [example_request 0, example_request 5]" by simp
  have b: "verify example_platform
        (example_executor\<lparr>nonces := consumed (nonces example_executor)
            (take 1 [example_request 0, example_request 5])\<rparr>)
        ([example_request 0, example_request 5] ! 1) ([example_signature, example_signature] ! 1)
       \<noteq> Inr True"
    by (simp add: example_verify) (simp add: example_request_def)
  from example_quiet b
  have c: "(\<forall>rs t. batch_loop example_platform (callbacks example_platform 1)
                (take 1 [example_request 0, example_request 5])
                (take 1 [example_signature, example_signature]) example_executor = Inr (rs, t)
             \<longrightarrow> verify example_platform t ([example_request 0, example_request 5] ! 1)
                    ([example_signature, example_signature] ! 1) \<noteq> Inr True)
         \<or> (quiet_targets example_platform
             \<and> verify example_platform
                 (example_executor\<lparr>nonces := consumed (nonces example_executor)
                    (take 1 [example_request 0, example_request 5])\<rparr>)
                  ([example_request 0, example_request 5] ! 1)
                  ([example_signature, example_signature] ! 1) \<noteq> Inr True)"
    by blast
  show ?thesis
    using a b example_quiet executeBatch_rejects_invalid_item [OF a c, of 9] by blast
qed

text \<open>
  In that run the first item had passed: when the second item is refused the body has
  already written the first nonce and called the first target. The revert discards both.
\<close>

lemma example_batch_work_discarded:
  "\<exists>e dirty. executeBatch_body example_platform no_entry 9 [example_request 0, example_request 5]
             [example_signature, example_signature] example_executor = Inl (e, dirty)
      \<and> nonces dirty 1 = 1 \<and> nonces example_executor 1 = 0
      \<and> invoked dirty = [call_of (example_request 0)]"
  by (simp add: executeBatch_body_def example_verify executeRequest_def checked_add_def Let_def
        example_executor_def constructor_def example_extcall)
     (simp add: example_request_def)





text \<open>
  A target that calls back: called for the request with nonce 0, it has the request with
  nonce 1 executed by a nested batch. Two requests were executed, the nonce is 2.
\<close>

lemma example_reentrant_verify:
  "verify example_reentrant_platform s (example_request n) example_signature
     = Inr (word_of_nat n = nonces s 1)"
  by (simp add: verify_def digest_def structHash_def REQUEST_TYPEHASH_def recoverSigner_def
        example_reentrant_platform_def example_platform_def example_signature_def nth_append
        example_request_def)

lemma example_reentrant_batch:
  "fst (executeBatch example_reentrant_platform 1 9 [example_request 0] [example_signature]
          example_executor) = Inr [True]
   \<and> nonces (snd (executeBatch example_reentrant_platform 1 9 [example_request 0]
          [example_signature] example_executor)) 1 = 2
   \<and> emitted (snd (executeBatch example_reentrant_platform 1 9 [example_request 0]
          [example_signature] example_executor))
       = [RequestExecuted 1 2 1 True, BatchExecuted 2 1 1,
          RequestExecuted 1 2 0 True, BatchExecuted 9 1 1]"
proof -
  have ext: "extcall example_reentrant_platform t c
     = (if nonces t 1 = 1
        then Reenter 2 [example_request 1] [example_signature] (\<lambda>_. Return True)
        else Return True)" for t c
    by (simp add: example_reentrant_platform_def)
  have from1: "req_from (example_request n) = 1" "req_to (example_request n) = 2"
    "req_nonce (example_request n) = word_of_nat n" for n
    by (simp_all add: example_request_def)
  show ?thesis
    by (simp add: transact_def executeBatch_body_def example_reentrant_verify executeRequest_def
          checked_add_def Let_def example_executor_def constructor_def ext from1)
qed

text \<open>
  Claim C7. A request whose nonce is already consumed (the ledger entry of its sender is
  above the nonce of the request), resubmitted with its signature: \<open>verify\<close> returns false,
  the batch made of it alone is refused by the check on signature and nonce (the one
  \<open>require\<close> the contract has for a nonce mismatch), every batch that holds it anywhere is
  rejected, also when targets call back, and in each case the ledger is what it was.
\<close>

theorem consumed_request_is_rejected:
  assumes "unat (req_nonce req) < unat (getNonce s (req_from req))"
    and "recoverSigner pf (digest pf s req) sg = Inr (req_from req)"
  shows "verify pf s req sg = Inr False
    \<and> executeBatch pf d sender [req] [sg] s
        = (Inl (Require ''BatchExecutor: invalid signature or nonce''), s)
    \<and> (\<forall>requests signatures i.
          i < length requests \<and> requests ! i = req \<and> signatures ! i = sg \<longrightarrow>
          (\<exists>e. executeBatch pf d sender requests signatures s = (Inl e, s)))"
proof -
  from assms(1) have ne: "req_nonce req \<noteq> nonces s (req_from req)"
    by (auto simp: getNonce_def)
  with assms(2) have v: "verify pf s req sg = Inr False"
    by (simp add: verify_def)
  then have single: "executeBatch pf d sender [req] [sg] s
        = (Inl (Require ''BatchExecutor: invalid signature or nonce''), s)"
    by (simp add: executeBatch_unfold transact_def executeBatch_body_def)
  have pres: "\<forall>a r g s. advances s (snd (callbacks pf d a r g s))"
    by (simp add: callbacks_advances)
  have "\<exists>e. executeBatch pf d sender requests signatures s = (Inl e, s)"
    if "i < length requests" "requests ! i = req" for requests signatures i
  proof -
    from that assms(1) obtain x where "batch_loop pf (callbacks pf d) requests signatures s = Inl x"
      using batch_loop_stale [OF pres, of i requests s pf signatures] by (auto simp: getNonce_def)
    then show ?thesis
      by (cases x) (simp add: executeBatch_unfold transact_def executeBatch_body_def)
  qed
  with v single show ?thesis by blast
qed

lemma example_used_nonce: "nonces example_executor_used 1 = 1"
  by (simp add: example_executor_used_def transact_def executeBatch_body_def
        example_verify executeRequest_def checked_add_def Let_def example_executor_def
        constructor_def example_extcall)
     (simp add: example_request_def)

theorem consumed_request_is_rejected_witness:
  "unat (req_nonce (example_request 0)) < unat (getNonce example_executor_used 1)
   \<and> verify example_platform example_executor_used (example_request 0) example_signature
       = Inr False
   \<and> executeBatch example_platform 1 9 [example_request 0] [example_signature] example_executor_used
       = (Inl (Require ''BatchExecutor: invalid signature or nonce''), example_executor_used)
   \<and> (\<exists>e. executeBatch example_platform 1 9 [example_request 1, example_request 0]
             [example_signature, example_signature] example_executor_used
           = (Inl e, example_executor_used))"
proof -
  have from1: "req_from (example_request 0) = 1"
    by (simp add: example_request_def)
  have a: "unat (req_nonce (example_request 0))
             < unat (getNonce example_executor_used (req_from (example_request 0)))"
    by (simp add: from1 getNonce_def example_used_nonce) (simp add: example_request_def)
  have b: "recoverSigner example_platform
             (digest example_platform example_executor_used (example_request 0)) example_signature
           = Inr (req_from (example_request 0))"
    by (simp add: example_recover from1)
  note inst = consumed_request_is_rejected [OF a b, of 1 9]
  have "\<exists>e. executeBatch example_platform 1 9 [example_request 1, example_request 0]
             [example_signature, example_signature] example_executor_used
           = (Inl e, example_executor_used)"
    using inst [THEN conjunct2, THEN conjunct2, rule_format,
               of 1 "[example_request 1, example_request 0]"
                  "[example_signature, example_signature]"]
    by simp
  then show ?thesis using a inst by (simp add: from1)
qed

section \<open>Properties of GasSponsor\<close>

lemma unat_bound: "unat (a::uint256) < 2 ^ 256"
  using unsigned_less [of a, where 'a = nat] by simp

lemma checked_add_le:
  "checked_add a b = Inr t \<Longrightarrow> (t \<le> c) = (unat a + unat b \<le> unat c)"
  by (auto simp: checked_add_def unat_word_ariths word_le_nat_alt split: if_splits)

lemma checked_add_Inl:
  "checked_add a b = Inl e \<Longrightarrow> unat (c::uint256) < unat a + unat b"
proof -
  assume "checked_add a b = Inl e"
  then have "\<not> unat a + unat b < 2 ^ 256" by (auto simp: checked_add_def split: if_splits)
  then show ?thesis using unat_bound [of c] by linarith
qed

lemma checked_add_ok:
  "unat a + unat b \<le> unat (c::uint256) \<Longrightarrow> checked_add a b = Inr (a + b)"
proof -
  assume h: "unat a + unat b \<le> unat c"
  from h unat_bound [of c] have "unat a + unat b < 2 ^ 256" by linarith
  then show ?thesis by (simp add: checked_add_def)
qed

lemma checked_div_Inr:
  "checked_div a n = Inr q \<Longrightarrow> n \<noteq> 0 \<and> unat q = unat a div n"
proof -
  assume h: "checked_div a n = Inr q"
  then have n: "n \<noteq> 0" and q: "q = word_of_nat (unat a div n)"
    by (auto simp: checked_div_def split: if_splits)
  have "unat (word_of_nat (unat a div n) :: uint256) = unat a div n"
    by (rule le_unat_uoi [of _ a]) simp
  with n q show ?thesis by simp
qed

lemma user_used_roll_user [simp]: "user_used (roll_user d u s) d v = user_used s d v"
  by (simp add: user_used_def roll_user_def)

lemma roll_user_sponsored: "userDailySponsored (roll_user d u s) u = user_used s d u"
  by (simp add: user_used_def roll_user_def)

lemma roll_user_limit [simp]: "dailyLimitPerUser (roll_user d u s) = dailyLimitPerUser s"
  by (simp add: roll_user_def)

lemma rolled_users_Nil: "rolled_users d [] s = s"
  by (simp add: rolled_users_def)

lemma rolled_users_Cons: "rolled_users d us (roll_user d u s) = rolled_users d (u # us) s"
  by (rule gas_sponsor.equality)
     (auto simp: rolled_users_def roll_user_def user_used_def fun_eq_iff)

lemma check_users_Inr:
  "check_users d per users s = Inr ((), s') \<Longrightarrow>
   s' = rolled_users d users s \<and>
   (\<forall>u\<in>set users. unat (user_used s d u) + unat per \<le> unat (dailyLimitPerUser s))"
proof (induction users arbitrary: s)
  case Nil
  then show ?case by (simp add: rolled_users_Nil)
next
  case (Cons u us)
  from Cons.prems obtain t where
    add: "checked_add (userDailySponsored (roll_user d u s) u) per = Inr t" and
    le: "t \<le> dailyLimitPerUser s" and
    rest: "check_users d per us (roll_user d u s) = Inr ((), s')"
    by (auto simp: Let_def split: sum.splits if_splits)
  from checked_add_le [OF add] le
  have "unat (user_used s d u) + unat per \<le> unat (dailyLimitPerUser s)"
    by (simp add: roll_user_sponsored)
  with Cons.IH [OF rest] show ?case by (simp add: rolled_users_Cons)
qed

lemma check_users_ok:
  "\<forall>u\<in>set users. unat (user_used s d u) + unat per \<le> unat (dailyLimitPerUser s) \<Longrightarrow>
   check_users d per users s = Inr ((), rolled_users d users s)"
proof (induction users arbitrary: s)
  case Nil
  then show ?case by (simp add: rolled_users_Nil)
next
  case (Cons u us)
  then have h: "unat (userDailySponsored (roll_user d u s) u) + unat per
                  \<le> unat (dailyLimitPerUser s)"
    by (simp add: roll_user_sponsored)
  note add = checked_add_ok [OF h]
  have "userDailySponsored (roll_user d u s) u + per \<le> dailyLimitPerUser s"
    using checked_add_le [OF add] h by simp
  moreover have "check_users d per us (roll_user d u s)
                   = Inr ((), rolled_users d us (roll_user d u s))"
    using Cons.prems by (intro Cons.IH) simp
  ultimately show ?case using add by (simp add: Let_def rolled_users_Cons)
qed

lemma credit_users_Inr:
  "credit_users per users s = Inr ((), s') \<Longrightarrow>
   s' = s\<lparr>userDailySponsored := userDailySponsored s'\<rparr> \<and>
   (\<forall>u. unat (userDailySponsored s' u)
          = unat (userDailySponsored s u) + count_list users u * unat per)"
proof (induction users arbitrary: s)
  case Nil
  then show ?case by simp
next
  case (Cons u us)
  from Cons.prems obtain v where
    add: "checked_add (userDailySponsored s u) per = Inr v" and
    rest: "credit_users per us (s\<lparr>userDailySponsored := (userDailySponsored s)(u := v)\<rparr>)
             = Inr ((), s')"
    by (auto split: sum.splits)
  note ih = Cons.IH [OF rest]
  note v = checked_add_Inr [OF add]
  have frame: "s' = s\<lparr>userDailySponsored := userDailySponsored s'\<rparr>"
    using ih [THEN conjunct1] by simp
  have "unat (userDailySponsored s' w)
          = unat (userDailySponsored s w) + count_list (u # us) w * unat per" for w
    using ih [THEN conjunct2, rule_format, of w] v by (cases "w = u") auto
  with frame show ?case by blast
qed

lemma credit_users_frame:
  "credit_users per users s = Inr ((), s') \<Longrightarrow> \<exists>f. s' = s\<lparr>userDailySponsored := f\<rparr>"
  using credit_users_Inr by blast

lemma claim_commit_Inr:
  assumes "claim_commit cx r per users s = Inr ((), s')"
  shows "send_succeeds cx (msg_sender cx) r"
    and "\<exists>t. s' = after_transfer cx r users t
          \<and> unat (relayerDailyClaimed t (msg_sender cx))
              = unat (relayerDailyClaimed s (msg_sender cx)) + unat r
          \<and> (\<forall>u. unat (userDailySponsored t u)
              = unat (userDailySponsored s u) + count_list users u * unat per)
          \<and> unat (globalDailyClaimed t) = unat (globalDailyClaimed s) + unat r
          \<and> unat (totalClaimed t) = unat (totalClaimed s) + unat r
          \<and> unat (totalClaimCount t) = unat (totalClaimCount s) + 1
          \<and> balance t = balance s - r
          \<and> paid t = paid s @ [(msg_sender cx, r)]
          \<and> logged t = logged s"
proof -
  from assms obtain rc s1 g tc n where
    rc: "checked_add (relayerDailyClaimed s (msg_sender cx)) r = Inr rc" and
    cr: "credit_users per users
           (s\<lparr>relayerDailyClaimed := (relayerDailyClaimed s)(msg_sender cx := rc)\<rparr>) = Inr ((), s1)" and
    g: "checked_add (globalDailyClaimed s1) r = Inr g" and
    tc: "checked_add (totalClaimed s1) r = Inr tc" and
    n: "checked_add (totalClaimCount s1) 1 = Inr n" and
    sent: "send_succeeds cx (msg_sender cx) r" and
    s': "s' = after_transfer cx r users
               (s1\<lparr>globalDailyClaimed := g, totalClaimed := tc, totalClaimCount := n,
                   balance := balance s1 - r,
                   paid := paid s1 @ [(msg_sender cx, r)]\<rparr>)"
    by (auto simp: claim_commit_def Let_def split: sum.splits if_splits)
  from credit_users_frame [OF cr] obtain f where
    s1: "s1 = s\<lparr>relayerDailyClaimed := (relayerDailyClaimed s)(msg_sender cx := rc),
               userDailySponsored := f\<rparr>" by blast
  note users = credit_users_Inr [OF cr, THEN conjunct2]
  show "send_succeeds cx (msg_sender cx) r" by (rule sent)
  let ?t = "s1\<lparr>globalDailyClaimed := g, totalClaimed := tc, totalClaimCount := n,
                balance := balance s1 - r, paid := paid s1 @ [(msg_sender cx, r)]\<rparr>"
  have "unat (relayerDailyClaimed ?t (msg_sender cx))
           = unat (relayerDailyClaimed s (msg_sender cx)) + unat r"
    using checked_add_Inr [OF rc] by (auto simp: s1)
  moreover have "\<forall>u. unat (userDailySponsored ?t u)
           = unat (userDailySponsored s u) + count_list users u * unat per"
    using users by simp
  moreover have "unat (globalDailyClaimed ?t) = unat (globalDailyClaimed s) + unat r"
    using checked_add_Inr [OF g] by (auto simp: s1)
  moreover have "unat (totalClaimed ?t) = unat (totalClaimed s) + unat r"
    using checked_add_Inr [OF tc] by (auto simp: s1)
  moreover have "unat (totalClaimCount ?t) = unat (totalClaimCount s) + 1"
    using checked_add_Inr [OF n] by (auto simp: s1)
  moreover have "balance ?t = balance s - r" "paid ?t = paid s @ [(msg_sender cx, r)]"
    "logged ?t = logged s" by (simp_all add: s1)
  ultimately show "\<exists>t. s' = after_transfer cx r users t
          \<and> unat (relayerDailyClaimed t (msg_sender cx))
              = unat (relayerDailyClaimed s (msg_sender cx)) + unat r
          \<and> (\<forall>u. unat (userDailySponsored t u)
              = unat (userDailySponsored s u) + count_list users u * unat per)
          \<and> unat (globalDailyClaimed t) = unat (globalDailyClaimed s) + unat r
          \<and> unat (totalClaimed t) = unat (totalClaimed s) + unat r
          \<and> unat (totalClaimCount t) = unat (totalClaimCount s) + 1
          \<and> balance t = balance s - r
          \<and> paid t = paid s @ [(msg_sender cx, r)]
          \<and> logged t = logged s"
    using s' by blast
qed

lemma roll_relayer_simps [simp]:
  "relayerDailyClaimed (roll_relayer d m s) m = relayer_used s d m"
  "dailyLimitPerRelayer (roll_relayer d m s) = dailyLimitPerRelayer s"
  "dailyLimitPerUser (roll_relayer d m s) = dailyLimitPerUser s"
  "globalDailyLimit (roll_relayer d m s) = globalDailyLimit s"
  "maxPerClaim (roll_relayer d m s) = maxPerClaim s"
  "userDailySponsored (roll_relayer d m s) = userDailySponsored s"
  "userLastSponsorDay (roll_relayer d m s) = userLastSponsorDay s"
  "user_used (roll_relayer d m s) = user_used s"
  "global_used (roll_relayer d m s) = global_used s"
  "balance (roll_relayer d m s) = balance s"
  "totalClaimed (roll_relayer d m s) = totalClaimed s"
  "totalClaimCount (roll_relayer d m s) = totalClaimCount s"
  "paid (roll_relayer d m s) = paid s"
  "logged (roll_relayer d m s) = logged s"
  by (simp_all add: roll_relayer_def relayer_used_def user_used_def global_used_def fun_eq_iff)

lemma rolled_users_simps [simp]:
  "relayerDailyClaimed (rolled_users d us s) = relayerDailyClaimed s"
  "userDailySponsored (rolled_users d us s) u
     = (if u \<in> set us then user_used s d u else userDailySponsored s u)"
  "dailyLimitPerRelayer (rolled_users d us s) = dailyLimitPerRelayer s"
  "dailyLimitPerUser (rolled_users d us s) = dailyLimitPerUser s"
  "globalDailyLimit (rolled_users d us s) = globalDailyLimit s"
  "maxPerClaim (rolled_users d us s) = maxPerClaim s"
  "global_used (rolled_users d us s) = global_used s"
  "balance (rolled_users d us s) = balance s"
  "totalClaimed (rolled_users d us s) = totalClaimed s"
  "totalClaimCount (rolled_users d us s) = totalClaimCount s"
  "paid (rolled_users d us s) = paid s"
  "logged (rolled_users d us s) = logged s"
  by (simp_all add: rolled_users_def global_used_def fun_eq_iff)

lemma roll_global_simps [simp]:
  "relayerDailyClaimed (roll_global d s) = relayerDailyClaimed s"
  "userDailySponsored (roll_global d s) = userDailySponsored s"
  "globalDailyClaimed (roll_global d s) = global_used s d"
  "dailyLimitPerRelayer (roll_global d s) = dailyLimitPerRelayer s"
  "dailyLimitPerUser (roll_global d s) = dailyLimitPerUser s"
  "globalDailyLimit (roll_global d s) = globalDailyLimit s"
  "maxPerClaim (roll_global d s) = maxPerClaim s"
  "balance (roll_global d s) = balance s"
  "totalClaimed (roll_global d s) = totalClaimed s"
  "totalClaimCount (roll_global d s) = totalClaimCount s"
  "paid (roll_global d s) = paid s"
  "logged (roll_global d s) = logged s"
  by (simp_all add: roll_global_def global_used_def)

text \<open>What a claim that goes through has checked, and what it has written.\<close>

lemma claim_body_Inr:
  assumes "claim_body cx amount users s = Inr ((), s')"
  shows "whitelistedRelayers s (msg_sender cx)" and "\<not> paused s"
    and "checks_pass cx s amount (msg_sender cx) users"
    and "send_succeeds cx (msg_sender cx) (capped s amount)"
    and "\<exists>t. s' = after_transfer cx (capped s amount) users t \<and> claim_writes cx amount users s t"
proof -
  let ?m = "msg_sender cx" and ?d = "today cx" and ?r = "capped s amount"
  let ?s1 = "roll_relayer ?d ?m s"
  from assms have wl: "whitelistedRelayers s ?m" and np: "\<not> paused s"
    by (auto simp: claim_body_def split: if_splits)
  from assms wl np obtain t per s2 g where
    t: "checked_add (relayerDailyClaimed ?s1 ?m) ?r = Inr t" and
    tle: "t \<le> dailyLimitPerRelayer ?s1" and
    per: "checked_div ?r (length users) = Inr per" and
    chk: "check_users ?d per users ?s1 = Inr ((), s2)" and
    g: "checked_add (globalDailyClaimed (roll_global ?d s2)) ?r = Inr g" and
    gle: "g \<le> globalDailyLimit (roll_global ?d s2)" and
    bal: "?r \<le> balance (roll_global ?d s2)" and
    com: "claim_commit cx ?r per users (roll_global ?d s2) = Inr ((), s')"
    by (auto simp: claim_body_def Let_def split: sum.splits if_splits)
  note p = checked_div_Inr [OF per]
  note c = check_users_Inr [OF chk]
  from c have s2: "s2 = rolled_users ?d users ?s1" by blast
  show "whitelistedRelayers s ?m" by (rule wl)
  show "\<not> paused s" by (rule np)
  have c1: "unat (relayer_used s ?d ?m) + unat ?r \<le> unat (dailyLimitPerRelayer s)"
    using checked_add_le [OF t] tle by simp
  have c2: "\<forall>u\<in>set users. unat (user_used s ?d u) + unat ?r div length users
              \<le> unat (dailyLimitPerUser s)"
    using c p by simp
  have c3: "unat (global_used s ?d) + unat ?r \<le> unat (globalDailyLimit s)"
    using checked_add_le [OF g] gle by (simp add: s2)
  have c4: "?r \<le> balance s" using bal by (simp add: s2)
  show "checks_pass cx s amount ?m users"
    using c1 c2 c3 c4 p by (simp add: checks_pass_def)
  show "send_succeeds cx ?m ?r" by (rule claim_commit_Inr(1) [OF com])
  from claim_commit_Inr(2) [OF com] obtain u where
    s': "s' = after_transfer cx ?r users u" and
    e2: "unat (relayerDailyClaimed u ?m)
           = unat (relayerDailyClaimed (roll_global ?d s2) ?m) + unat ?r" and
    e3: "\<forall>w. unat (userDailySponsored u w)
           = unat (userDailySponsored (roll_global ?d s2) w) + count_list users w * unat per" and
    e4: "unat (globalDailyClaimed u) = unat (globalDailyClaimed (roll_global ?d s2)) + unat ?r" and
    e5: "unat (totalClaimed u) = unat (totalClaimed (roll_global ?d s2)) + unat ?r" and
    e6: "unat (totalClaimCount u) = unat (totalClaimCount (roll_global ?d s2)) + 1" and
    e7: "balance u = balance (roll_global ?d s2) - ?r" and
    e8: "paid u = paid (roll_global ?d s2) @ [(?m, ?r)]" and
    e9: "logged u = logged (roll_global ?d s2)"
    by blast
  have w1: "unat (relayerDailyClaimed u ?m) = unat (relayer_used s ?d ?m) + unat ?r"
    using e2 by (simp add: s2)
  have w2: "\<forall>w\<in>set users. unat (userDailySponsored u w)
           = unat (user_used s ?d w) + count_list users w * (unat ?r div length users)"
    using e3 p by (simp add: s2)
  have w3: "\<forall>w. w \<notin> set users \<longrightarrow> userDailySponsored u w = userDailySponsored s w"
  proof (intro allI impI)
    fix w assume w: "w \<notin> set users"
    then have "count_list users w = 0" by (simp add: count_list_0_iff)
    with e3 w have "unat (userDailySponsored u w) = unat (userDailySponsored s w)"
      by (simp add: s2)
    then show "userDailySponsored u w = userDailySponsored s w" by (simp add: word_unat_eq_iff)
  qed
  have w4: "unat (globalDailyClaimed u) = unat (global_used s ?d) + unat ?r"
    using e4 by (simp add: s2)
  have w5: "unat (totalClaimed u) = unat (totalClaimed s) + unat ?r"
    using e5 by (simp add: s2)
  have w6: "unat (totalClaimCount u) = unat (totalClaimCount s) + 1"
    using e6 by (simp add: s2)
  have w7: "balance u = balance s - ?r" using e7 by (simp add: s2)
  have w8: "paid u = paid s @ [(?m, ?r)]" using e8 by (simp add: s2)
  have w9: "logged u = logged s" using e9 by (simp add: s2)
  have "claim_writes cx amount users s u"
    unfolding claim_writes_def using w1 w2 w3 w4 w5 w6 w7 w8 w9 by blast
  with s' show "\<exists>t. s' = after_transfer cx ?r users t \<and> claim_writes cx amount users s t"
    by blast
qed

lemma guard_add:
  "((case checked_add a b of Inl e \<Rightarrow> Inl e
     | Inr t \<Rightarrow> if c < t then Inr (0, False) else K) = Inr (x, True))
   = (unat a + unat b \<le> unat c \<and> K = Inr (x, True))"
proof (cases "unat a + unat b \<le> unat c")
  case True
  note ok = checked_add_ok [OF True]
  from checked_add_le [OF ok, of c] True have "\<not> c < a + b" by (simp add: not_less)
  with ok True show ?thesis by simp
next
  case False
  show ?thesis
  proof (cases "checked_add a b")
    case (Inl e)
    with False show ?thesis by simp
  next
    case (Inr t)
    from checked_add_le [OF Inr, of c] False have "c < t" by (simp add: not_le)
    with Inr False show ?thesis by simp
  qed
qed

lemma estimate_users_True:
  "(estimate_users s d per users = Inr True)
   = (\<forall>u\<in>set users. unat (user_used s d u) + unat per \<le> unat (dailyLimitPerUser s))"
proof (induction users)
  case Nil
  then show ?case by simp
next
  case (Cons u us)
  show ?case
  proof (cases "unat (user_used s d u) + unat per \<le> unat (dailyLimitPerUser s)")
    case True
    note ok = checked_add_ok [OF True]
    from checked_add_le [OF ok, of "dailyLimitPerUser s"] True
    have "\<not> dailyLimitPerUser s < user_used s d u + per" by (simp add: not_less)
    with ok True Cons.IH show ?thesis by (simp add: user_used_def Let_def)
  next
    case False
    show ?thesis
    proof (cases "checked_add (user_used s d u) per")
      case (Inl e)
      with False show ?thesis by (simp add: user_used_def Let_def)
    next
      case (Inr t)
      from checked_add_le [OF Inr, of "dailyLimitPerUser s"] False
      have "dailyLimitPerUser s < t" by (simp add: not_le)
      with Inr False show ?thesis by (simp add: user_used_def Let_def)
    qed
  qed
qed

lemma estimate_tail:
  "((case checked_div r (length users) of Inl e \<Rightarrow> Inl e
     | Inr per \<Rightarrow>
        (case estimate_users s d per users of Inl e \<Rightarrow> Inl e
         | Inr ok \<Rightarrow> if ok then Inr (r, True) else Inr (0, False))) = Inr (x, True))
   = (users \<noteq> [] \<and> x = r \<and>
      (\<forall>u\<in>set users. unat (user_used s d u) + unat r div length users
          \<le> unat (dailyLimitPerUser s)))"
proof (cases "checked_div r (length users)")
  case (Inl e)
  then show ?thesis by (auto simp: checked_div_def split: if_splits)
next
  case (Inr per)
  note p = checked_div_Inr [OF Inr]
  show ?thesis
  proof (cases "estimate_users s d per users")
    case (Inl e)
    with estimate_users_True [of s d per users] p Inr show ?thesis by auto
  next
    case (Inr ok)
    with estimate_users_True [of s d per users] p \<open>checked_div r (length users) = Inr per\<close>
    show ?thesis by (cases ok) auto
  qed
qed

lemma estimate_True:
  "(estimateReimbursement cx s amount relayer users = Inr (x, True))
   = (x = capped s amount \<and> checks_pass cx s amount relayer users)"
  unfolding estimateReimbursement_def Let_def capped_def [symmetric]
    relayer_used_def [symmetric] global_used_def [symmetric]
  by (auto simp: guard_add estimate_tail checks_pass_def not_less)

lemma estimate_False:
  "estimateReimbursement cx s amount relayer users = Inr (x, False) \<Longrightarrow> x = 0"
  by (auto simp: estimateReimbursement_def Let_def split: sum.splits if_splits)

lemma claim_Inr:
  "claim cx amount users s = (Inr (), s') \<Longrightarrow> claim_body cx amount users s = Inr ((), s')"
  by (auto simp: claim_def transact_def split: sum.splits prod.splits)

lemma claim_not_Inr:
  "(\<And>s'. claim_body cx amount users s \<noteq> Inr ((), s')) \<Longrightarrow>
   \<exists>e. claim cx amount users s = (Inl e, s)"
  by (cases "claim_body cx amount users s")
     (auto simp: claim_def transact_def split: prod.splits)

lemma claim_ok:
  "claim_body cx amount users s = Inr ((), s') \<Longrightarrow> claim cx amount users s = (Inr (), s')"
  by (simp add: claim_def transact_def)

lemma sum_increments:
  assumes "\<forall>u\<in>set users. (f u :: nat) = g u + count_list users u * k"
  shows "(\<Sum>u\<in>set users. f u - g u) = length users * k"
proof -
  have "(\<Sum>u\<in>set users. f u - g u) = (\<Sum>u\<in>set users. count_list users u * k)"
    using assms by (intro sum.cong) simp_all
  also have "\<dots> = (\<Sum>u\<in>set users. count_list users u) * k"
    by (simp add: sum_distrib_right)
  also have "(\<Sum>u\<in>set users. count_list users u) = length users"
    by (rule sum_count_set) simp_all
  finally show ?thesis .
qed

lemma credit_users_fits:
  "\<forall>u\<in>set users. unat (userDailySponsored s u) + count_list users u * unat per < 2 ^ 256 \<Longrightarrow>
   \<exists>s'. credit_users per users s = Inr ((), s')"
proof (induction users arbitrary: s)
  case Nil
  then show ?case by simp
next
  case (Cons u us)
  let ?s1 = "s\<lparr>userDailySponsored := (userDailySponsored s)(u := userDailySponsored s u + per)\<rparr>"
  from Cons.prems have head: "unat (userDailySponsored s u) + unat per < 2 ^ 256"
    by simp
  then have add: "checked_add (userDailySponsored s u) per = Inr (userDailySponsored s u + per)"
    by (simp add: checked_add_def)
  note v = checked_add_Inr [OF add]
  have "\<forall>w\<in>set us. unat (userDailySponsored ?s1 w) + count_list us w * unat per < 2 ^ 256"
  proof
    fix w assume "w \<in> set us"
    then have "unat (userDailySponsored s w) + count_list (u # us) w * unat per < 2 ^ 256"
      using Cons.prems by simp
    then show "unat (userDailySponsored ?s1 w) + count_list us w * unat per < 2 ^ 256"
      using v by (cases "w = u") (simp_all add: algebra_simps)
  qed
  from Cons.IH [OF this] add show ?case by simp
qed

lemma claim_commit_fits:
  assumes "unat (relayerDailyClaimed s (msg_sender cx)) + unat r < 2 ^ 256"
    and "\<forall>u\<in>set users. unat (userDailySponsored s u) + count_list users u * unat per < 2 ^ 256"
    and "unat (globalDailyClaimed s) + unat r < 2 ^ 256"
    and "unat (totalClaimed s) + unat r < 2 ^ 256"
    and "unat (totalClaimCount s) + 1 < 2 ^ 256"
    and "send_succeeds cx (msg_sender cx) r"
  shows "\<exists>s'. claim_commit cx r per users s = Inr ((), s')"
proof -
  let ?s0 = "s\<lparr>relayerDailyClaimed := (relayerDailyClaimed s)
               (msg_sender cx := relayerDailyClaimed s (msg_sender cx) + r)\<rparr>"
  have "\<exists>s1. credit_users per users ?s0 = Inr ((), s1)"
    using assms(2) by (intro credit_users_fits) simp
  then obtain s1 where cr: "credit_users per users ?s0 = Inr ((), s1)" by blast
  from credit_users_frame [OF cr] obtain f where s1: "s1 = ?s0\<lparr>userDailySponsored := f\<rparr>"
    by blast
  have one: "unat (1::uint256) = 1" by simp
  show ?thesis
    using assms(1,3,4,5,6) cr
    by (simp add: claim_commit_def checked_add_def Let_def s1 one)
qed

lemma claim_body_fits:
  assumes "whitelistedRelayers s (msg_sender cx)" and "\<not> paused s"
    and "checks_pass cx s amount (msg_sender cx) users"
    and "send_succeeds cx (msg_sender cx) (capped s amount)"
    and "bookkeeping_fits cx s amount users"
  shows "\<exists>s'. claim_body cx amount users s = Inr ((), s')"
proof -
  let ?m = "msg_sender cx" and ?d = "today cx" and ?r = "capped s amount"
  let ?s1 = "roll_relayer ?d ?m s"
  let ?per = "word_of_nat (unat ?r div length users) :: uint256"
  let ?s2 = "rolled_users ?d users ?s1"
  let ?s3 = "roll_global ?d ?s2"
  from assms(3) have
    c1: "unat (relayer_used s ?d ?m) + unat ?r \<le> unat (dailyLimitPerRelayer s)" and
    ne: "users \<noteq> []" and
    c2: "\<forall>u\<in>set users. unat (user_used s ?d u) + unat ?r div length users
              \<le> unat (dailyLimitPerUser s)" and
    c3: "unat (global_used s ?d) + unat ?r \<le> unat (globalDailyLimit s)" and
    c4: "?r \<le> balance s"
    by (simp_all add: checks_pass_def)
  from assms(5) have
    f1: "\<forall>u\<in>set users. unat (user_used s ?d u)
          + count_list users u * (unat ?r div length users) < 2 ^ 256" and
    f2: "unat (totalClaimed s) + unat ?r < 2 ^ 256" and
    f3: "unat (totalClaimCount s) + 1 < 2 ^ 256"
    by (simp_all add: bookkeeping_fits_def)
  have per: "checked_div ?r (length users) = Inr ?per" using ne by (simp add: checked_div_def)
  note p = checked_div_Inr [OF per]
  have t: "checked_add (relayerDailyClaimed ?s1 ?m) ?r = Inr (relayer_used s ?d ?m + ?r)"
    using checked_add_ok [OF c1] by simp
  have tle: "relayer_used s ?d ?m + ?r \<le> dailyLimitPerRelayer ?s1"
    using checked_add_le [OF checked_add_ok [OF c1]] c1 by simp
  have chk: "check_users ?d ?per users ?s1 = Inr ((), ?s2)"
    using c2 p by (intro check_users_ok) simp
  have g: "checked_add (globalDailyClaimed ?s3) ?r = Inr (global_used s ?d + ?r)"
    using checked_add_ok [OF c3] by simp
  have gle: "global_used s ?d + ?r \<le> globalDailyLimit ?s3"
    using checked_add_le [OF checked_add_ok [OF c3]] c3 by simp
  have bal: "?r \<le> balance ?s3" using c4 by simp
  have "\<exists>s'. claim_commit cx ?r ?per users ?s3 = Inr ((), s')"
  proof (rule claim_commit_fits)
    show "unat (relayerDailyClaimed ?s3 ?m) + unat ?r < 2 ^ 256"
      using c1 unat_bound [of "dailyLimitPerRelayer s"] by simp
    show "\<forall>u\<in>set users. unat (userDailySponsored ?s3 u) + count_list users u * unat ?per < 2 ^ 256"
      using f1 p by simp
    show "unat (globalDailyClaimed ?s3) + unat ?r < 2 ^ 256"
      using c3 unat_bound [of "globalDailyLimit s"] by simp
    show "unat (totalClaimed ?s3) + unat ?r < 2 ^ 256" using f2 by simp
    show "unat (totalClaimCount ?s3) + 1 < 2 ^ 256" using f3 by simp
    show "send_succeeds cx ?m ?r" by (rule assms(4))
  qed
  then show ?thesis
    using assms(1,2) t tle per chk g gle bal
    by (simp add: claim_body_def Let_def)
qed

lemma claim_body_Inr_fits:
  assumes "claim_body cx amount users s = Inr ((), s')"
  shows "bookkeeping_fits cx s amount users"
proof -
  from claim_body_Inr(5) [OF assms] obtain t where w: "claim_writes cx amount users s t"
    by blast
  have "\<forall>u\<in>set users. unat (user_used s (today cx) u)
          + count_list users u * (unat (capped s amount) div length users) < 2 ^ 256"
  proof
    fix u assume "u \<in> set users"
    with w have "unat (user_used s (today cx) u)
          + count_list users u * (unat (capped s amount) div length users)
        = unat (userDailySponsored t u)" by (simp add: claim_writes_def)
    then show "unat (user_used s (today cx) u)
          + count_list users u * (unat (capped s amount) div length users) < 2 ^ 256"
      using unat_bound [of "userDailySponsored t u"] by simp
  qed
  moreover have "unat (totalClaimed s) + unat (capped s amount) < 2 ^ 256"
    using w unat_bound [of "totalClaimed t"] by (simp add: claim_writes_def)
  moreover have "unat (totalClaimCount s) + 1 < 2 ^ 256"
    using w unat_bound [of "totalClaimCount t"] by (simp add: claim_writes_def)
  ultimately show ?thesis by (simp add: bookkeeping_fits_def)
qed

text \<open>A claim goes through exactly when every check passes, the updates fit and the
  transfer is accepted.\<close>

lemma claim_succeeds_iff:
  "(\<exists>s'. claim cx amount users s = (Inr (), s'))
   = (whitelistedRelayers s (msg_sender cx) \<and> \<not> paused s
      \<and> checks_pass cx s amount (msg_sender cx) users
      \<and> send_succeeds cx (msg_sender cx) (capped s amount)
      \<and> bookkeeping_fits cx s amount users)"
proof
  assume "\<exists>s'. claim cx amount users s = (Inr (), s')"
  then obtain s' where "claim_body cx amount users s = Inr ((), s')"
    using claim_Inr by blast
  from claim_body_Inr(1-4) [OF this] claim_body_Inr_fits [OF this]
  show "whitelistedRelayers s (msg_sender cx) \<and> \<not> paused s
      \<and> checks_pass cx s amount (msg_sender cx) users
      \<and> send_succeeds cx (msg_sender cx) (capped s amount)
      \<and> bookkeeping_fits cx s amount users" by blast
next
  assume "whitelistedRelayers s (msg_sender cx) \<and> \<not> paused s
      \<and> checks_pass cx s amount (msg_sender cx) users
      \<and> send_succeeds cx (msg_sender cx) (capped s amount)
      \<and> bookkeeping_fits cx s amount users"
  then obtain s' where "claim_body cx amount users s = Inr ((), s')"
    using claim_body_fits by blast
  then show "\<exists>s'. claim cx amount users s = (Inr (), s')"
    using claim_ok by blast
qed

lemma claim_fails:
  "\<not> (\<exists>s'. claim cx amount users s = (Inr (), s')) \<Longrightarrow>
   \<exists>e. claim cx amount users s = (Inl e, s)"
  by (rule claim_not_Inr) (auto dest: claim_ok)

lemma example_sponsor_funded_eq:
  "0 < v \<Longrightarrow> example_sponsor_funded v =
     \<lparr>owner = 9, paused = False, whitelistedRelayers = (\<lambda>_. False)(7 := True),
      maxPerClaim = 5, dailyLimitPerRelayer = 100, dailyLimitPerUser = 50,
      globalDailyLimit = 1000,
      relayerDailyClaimed = (\<lambda>_. 0), relayerLastClaimDay = (\<lambda>_. 0),
      userDailySponsored = (\<lambda>_. 0), userLastSponsorDay = (\<lambda>_. 0),
      globalDailyClaimed = 0, globalLastClaimDay = 0,
      totalDeposited = v, totalClaimed = 0, totalClaimCount = 0,
      balance = v, paid = [],
      logged = [RelayerStatusChanged 7 True, Deposited 9 v]\<rparr>"
  using unat_bound [of v]
  by (simp add: example_sponsor_funded_def deposit_def deposit_body_def setRelayer_def
        setRelayer_body_def transact_def sponsor_constructor_def example_owner_context_def
        checked_add_def Let_def)

lemma example_today: "today example_context = 20000" "today example_refusing_context = 20000"
  by (simp_all add: today_def example_context_def example_refusing_context_def)

lemma example_checks:
  "checks_pass example_context example_sponsor 6 7 [11, 12]"
  by (simp add: checks_pass_def example_sponsor_def example_sponsor_funded_eq example_today
        capped_def relayer_used_def user_used_def global_used_def
        numeral_2_eq_2 [symmetric])

lemma example_claim_empty:
  "claim example_context 6 [] example_sponsor = (Inl (Panic DivisionByZero), example_sponsor)"
  by (simp add: claim_def transact_def claim_body_def example_sponsor_def
        example_sponsor_funded_eq today_def capped_def roll_relayer_def checked_add_def
        checked_div_def Let_def example_context_def)

lemma example_claim_refused:
  "claim example_refusing_context 6 [11] example_sponsor
     = (Inl (Require ''GasSponsor: transfer failed''), example_sponsor)"
  by (simp add: claim_def transact_def claim_body_def claim_commit_def example_sponsor_def
        example_sponsor_funded_eq today_def capped_def roll_relayer_def roll_user_def
        roll_global_def checked_add_def
        checked_div_def Let_def example_refusing_context_def)

lemma example_claim_low:
  "\<exists>dirty. claim_body example_context 6 [11] (example_sponsor_funded 3)
     = Inl (Require ''GasSponsor: insufficient pool funds'', dirty)
    \<and> relayerLastClaimDay dirty 7 = 20000 \<and> userLastSponsorDay dirty 11 = 20000
    \<and> globalLastClaimDay dirty = 20000
    \<and> relayerLastClaimDay (example_sponsor_funded 3) 7 = 0"
  by (simp add: claim_body_def claim_commit_def
        example_sponsor_funded_eq today_def capped_def roll_relayer_def roll_user_def
        roll_global_def checked_add_def
        checked_div_def Let_def example_context_def)

text \<open>
  Claim C2, as the code has it. A claim with an empty list of users is always rejected and
  changes nothing. No check of the contract looks at the length of the list: the whitelist,
  the pause flag and the daily limit of the relayer are checked first, and a call that
  passes them is stopped by the division \<open>reimbursement / users.length\<close> itself, which
  panics on the zero divisor.
\<close>

theorem claim_without_beneficiaries:
  "claim cx amount [] s =
     (Inl (if \<not> whitelistedRelayers s (msg_sender cx) then Require ''GasSponsor: not whitelisted''
           else if paused s then Require ''GasSponsor: paused''
           else if unat (relayer_used s (today cx) (msg_sender cx)) + unat (capped s amount)
                     \<le> unat (dailyLimitPerRelayer s)
             then Panic DivisionByZero
           else if unat (relayer_used s (today cx) (msg_sender cx)) + unat (capped s amount) < 2 ^ 256
             then Require ''GasSponsor: relayer daily limit reached''
           else Panic Overflow), s)"
proof -
  let ?a = "relayer_used s (today cx) (msg_sender cx)" and ?r = "capped s amount"
  consider (nw) "\<not> whitelistedRelayers s (msg_sender cx)"
    | (pa) "whitelistedRelayers s (msg_sender cx)" "paused s"
    | (ok) "whitelistedRelayers s (msg_sender cx)" "\<not> paused s"
           "unat ?a + unat ?r \<le> unat (dailyLimitPerRelayer s)"
    | (lim) "whitelistedRelayers s (msg_sender cx)" "\<not> paused s"
           "\<not> unat ?a + unat ?r \<le> unat (dailyLimitPerRelayer s)" "unat ?a + unat ?r < 2 ^ 256"
    | (ov) "whitelistedRelayers s (msg_sender cx)" "\<not> paused s"
           "\<not> unat ?a + unat ?r \<le> unat (dailyLimitPerRelayer s)" "\<not> unat ?a + unat ?r < 2 ^ 256"
    by blast
  then show ?thesis
  proof cases
    case nw
    then show ?thesis by (simp add: claim_def transact_def claim_body_def)
  next
    case pa
    then show ?thesis by (simp add: claim_def transact_def claim_body_def)
  next
    case ok
    note add = checked_add_ok [OF ok(3)]
    from checked_add_le [OF add, of "dailyLimitPerRelayer s"] ok(3)
    have "?a + ?r \<le> dailyLimitPerRelayer s" by simp
    with ok add show ?thesis
      by (simp add: claim_def transact_def claim_body_def Let_def checked_div_def)
  next
    case lim
    then have add: "checked_add ?a ?r = Inr (?a + ?r)" by (simp add: checked_add_def)
    from checked_add_le [OF add, of "dailyLimitPerRelayer s"] lim(3)
    have "\<not> ?a + ?r \<le> dailyLimitPerRelayer s" by simp
    with lim add show ?thesis
      by (simp add: claim_def transact_def claim_body_def Let_def)
  next
    case ov
    then have add: "checked_add ?a ?r = Inl (Panic Overflow)" by (simp add: checked_add_def)
    with ov show ?thesis
      by (simp add: claim_def transact_def claim_body_def Let_def)
  qed
qed

text \<open>
  The whitelisted relayer of the example claims 6 for no user: the call is rejected by the
  panic of the division, not by a check placed before it.
\<close>

theorem claim_without_beneficiaries_counterexample:
  "fst (claim example_context 6 [] example_sponsor) = Inl (Panic DivisionByZero)
   \<and> checked_div (capped example_sponsor 6) (length ([] :: address list))
       = Inl (Panic DivisionByZero)
   \<and> whitelistedRelayers example_sponsor (msg_sender example_context)
   \<and> \<not> paused example_sponsor"
proof (intro conjI)
  show "fst (claim example_context 6 [] example_sponsor) = Inl (Panic DivisionByZero)"
    by (simp add: example_claim_empty)
  show "checked_div (capped example_sponsor 6) (length ([] :: address list))
       = Inl (Panic DivisionByZero)"
    by (simp add: checked_div_def)
  show "whitelistedRelayers example_sponsor (msg_sender example_context)"
    by (simp add: example_sponsor_def example_sponsor_funded_eq example_context_def)
  show "\<not> paused example_sponsor"
    by (simp add: example_sponsor_def example_sponsor_funded_eq)
qed

text \<open>
  Claim C4. A claim that is rejected, for whatever reason, leaves the sponsor in the state
  before the call: counters, day stamps, totals, balance, transfers and events, including
  the resets the checks had written before the one that failed. And each failing check
  rejects the claim: relayer not whitelisted, contract paused, daily limit of the relayer,
  of some user or of the whole pool exceeded (counters read on the day of the call), pool
  balance too low, or the transfer refused.
\<close>

theorem claim_is_all_or_nothing:
  "(claim cx amount users s = (Inl e, s') \<longrightarrow> s' = s)
   \<and> (\<not> whitelistedRelayers s (msg_sender cx) \<or> paused s
       \<or> unat (dailyLimitPerRelayer s)
            < unat (relayer_used s (today cx) (msg_sender cx)) + unat (capped s amount)
       \<or> (\<exists>u\<in>set users. unat (dailyLimitPerUser s)
            < unat (user_used s (today cx) u) + unat (capped s amount) div length users)
       \<or> unat (globalDailyLimit s) < unat (global_used s (today cx)) + unat (capped s amount)
       \<or> balance s < capped s amount
       \<or> \<not> send_succeeds cx (msg_sender cx) (capped s amount)
      \<longrightarrow> (\<exists>e'. claim cx amount users s = (Inl e', s)))"
proof (intro conjI impI)
  assume "claim cx amount users s = (Inl e, s')"
  then show "s' = s" unfolding claim_def by (rule transact_revert)
next
  assume bad: "\<not> whitelistedRelayers s (msg_sender cx) \<or> paused s
       \<or> unat (dailyLimitPerRelayer s)
            < unat (relayer_used s (today cx) (msg_sender cx)) + unat (capped s amount)
       \<or> (\<exists>u\<in>set users. unat (dailyLimitPerUser s)
            < unat (user_used s (today cx) u) + unat (capped s amount) div length users)
       \<or> unat (globalDailyLimit s) < unat (global_used s (today cx)) + unat (capped s amount)
       \<or> balance s < capped s amount
       \<or> \<not> send_succeeds cx (msg_sender cx) (capped s amount)"
  have "\<not> (\<exists>t. claim cx amount users s = (Inr (), t))"
  proof
    assume "\<exists>t. claim cx amount users s = (Inr (), t)"
    then have ok: "whitelistedRelayers s (msg_sender cx)" "\<not> paused s"
      "checks_pass cx s amount (msg_sender cx) users"
      "send_succeeds cx (msg_sender cx) (capped s amount)"
      by (simp_all add: claim_succeeds_iff)
    from ok(3) bad ok(1,2,4) show False
      by (auto simp: checks_pass_def not_less [symmetric])
  qed
  then show "\<exists>e'. claim cx amount users s = (Inl e', s)" by (rule claim_fails)
qed

lemma example_low_fields:
  "balance (example_sponsor_funded 3) = 3" "capped (example_sponsor_funded 3) 6 = 5"
  by (simp_all add: example_sponsor_funded_eq capped_def)

theorem claim_is_all_or_nothing_witness:
  "balance (example_sponsor_funded 3) < capped (example_sponsor_funded 3) 6
   \<and> (\<exists>e. claim example_context 6 [11] (example_sponsor_funded 3)
            = (Inl e, example_sponsor_funded 3))"
proof -
  have low: "balance (example_sponsor_funded 3) < capped (example_sponsor_funded 3) 6"
    by (simp add: example_low_fields)
  then show ?thesis
    using claim_is_all_or_nothing
      [of example_context 6 "[11]" "example_sponsor_funded 3", THEN conjunct2]
    by blast
qed

lemma after_transfer_quiet:
  "quiet_recipient cx \<Longrightarrow>
   after_transfer cx r users t
     = t\<lparr>logged := logged t @ [Claimed (msg_sender cx) r users (word_of_nat (length users))]\<rparr>"
  by (simp add: after_transfer_def quiet_recipient_def)

lemma claim_writes_sum:
  assumes "claim_writes cx amount users s t"
  shows "(\<Sum>u\<in>set users. unat (userDailySponsored t u) - unat (user_used s (today cx) u))
           = length users * (unat (capped s amount) div length users)"
  using assms by (intro sum_increments) (simp add: claim_writes_def)

lemma claim_writes_balance:
  assumes "claim_writes cx amount users s t" and "capped s amount \<le> balance s"
  shows "unat (balance t) + unat (capped s amount) = unat (balance s)"
proof -
  from assms(2) have "unat (balance s - capped s amount) = unat (balance s) - unat (capped s amount)"
    and "unat (capped s amount) \<le> unat (balance s)"
    by (simp_all add: unat_sub word_le_nat_alt)
  moreover from assms(1) have "balance t = balance s - capped s amount"
    by (simp add: claim_writes_def)
  ultimately show ?thesis by simp
qed

lemma claim_hands_over:
  assumes "claim cx amount users s = (Inr (), s')"
  shows "\<exists>t. s' = after_transfer cx (capped s amount) users t
          \<and> claim_writes cx amount users s t
          \<and> unat (balance t) + unat (capped s amount) = unat (balance s)"
    and "users \<noteq> []"
proof -
  note b = claim_Inr [OF assms]
  from claim_body_Inr(3) [OF b] have bal: "capped s amount \<le> balance s" and ne: "users \<noteq> []"
    by (simp_all add: checks_pass_def)
  from claim_body_Inr(5) [OF b] obtain t where
    "s' = after_transfer cx (capped s amount) users t" "claim_writes cx amount users s t"
    by blast
  with claim_writes_balance [OF this(2) bal]
  show "\<exists>t. s' = after_transfer cx (capped s amount) users t
          \<and> claim_writes cx amount users s t
          \<and> unat (balance t) + unat (capped s amount) = unat (balance s)" by blast
  show "users \<noteq> []" by (rule ne)
qed

text \<open>
  Claim C5, as the code has it. A claim for more than \<open>maxPerClaim\<close> that goes through
  transfers exactly \<open>maxPerClaim\<close> to the relayer, and has added exactly \<open>maxPerClaim\<close> to
  the daily counter of the relayer, to the global daily counter and to \<open>totalClaimed\<close>
  when it hands the transfer over (state \<open>t\<close>). The counters of the users have grown by
  the integer share each, in total by \<open>count * (maxPerClaim div count)\<close>, which is at most
  \<open>maxPerClaim\<close>. The state after the call is what the code of the relayer leaves of \<open>t\<close>,
  with the event logged; when that code does not call back into the sponsor, the same
  amounts are read off the state after the call.
\<close>

theorem claim_above_cap_pays_the_cap:
  assumes "claim cx amount users s = (Inr (), s')" and "maxPerClaim s < amount"
  shows "(\<exists>t. s' = after_transfer cx (maxPerClaim s) users t
           \<and> paid t = paid s @ [(msg_sender cx, maxPerClaim s)]
           \<and> unat (balance t) + unat (maxPerClaim s) = unat (balance s)
           \<and> unat (relayerDailyClaimed t (msg_sender cx))
               = unat (relayer_used s (today cx) (msg_sender cx)) + unat (maxPerClaim s)
           \<and> unat (globalDailyClaimed t) = unat (global_used s (today cx)) + unat (maxPerClaim s)
           \<and> unat (totalClaimed t) = unat (totalClaimed s) + unat (maxPerClaim s)
           \<and> (\<Sum>u\<in>set users. unat (userDailySponsored t u) - unat (user_used s (today cx) u))
               = length users * (unat (maxPerClaim s) div length users))
     \<and> length users * (unat (maxPerClaim s) div length users) \<le> unat (maxPerClaim s)
     \<and> (quiet_recipient cx \<longrightarrow>
           paid s' = paid s @ [(msg_sender cx, maxPerClaim s)]
         \<and> unat (balance s') + unat (maxPerClaim s) = unat (balance s)
         \<and> unat (relayerDailyClaimed s' (msg_sender cx))
             = unat (relayer_used s (today cx) (msg_sender cx)) + unat (maxPerClaim s)
         \<and> unat (globalDailyClaimed s') = unat (global_used s (today cx)) + unat (maxPerClaim s)
         \<and> unat (totalClaimed s') = unat (totalClaimed s) + unat (maxPerClaim s)
         \<and> (\<Sum>u\<in>set users. unat (userDailySponsored s' u) - unat (user_used s (today cx) u))
             = length users * (unat (maxPerClaim s) div length users))"
proof -
  from assms(2) have r: "capped s amount = maxPerClaim s" by (simp add: capped_def)
  from claim_hands_over(1) [OF assms(1), unfolded r] obtain t where
    s': "s' = after_transfer cx (maxPerClaim s) users t" and
    w: "claim_writes cx amount users s t" and
    bal: "unat (balance t) + unat (maxPerClaim s) = unat (balance s)" by blast
  note sum = claim_writes_sum [OF w, unfolded r]
  from w have f: "paid t = paid s @ [(msg_sender cx, maxPerClaim s)]"
    "unat (relayerDailyClaimed t (msg_sender cx))
       = unat (relayer_used s (today cx) (msg_sender cx)) + unat (maxPerClaim s)"
    "unat (globalDailyClaimed t) = unat (global_used s (today cx)) + unat (maxPerClaim s)"
    "unat (totalClaimed t) = unat (totalClaimed s) + unat (maxPerClaim s)"
    by (simp_all add: claim_writes_def r)
  have first: "\<exists>t. s' = after_transfer cx (maxPerClaim s) users t
           \<and> paid t = paid s @ [(msg_sender cx, maxPerClaim s)]
           \<and> unat (balance t) + unat (maxPerClaim s) = unat (balance s)
           \<and> unat (relayerDailyClaimed t (msg_sender cx))
               = unat (relayer_used s (today cx) (msg_sender cx)) + unat (maxPerClaim s)
           \<and> unat (globalDailyClaimed t) = unat (global_used s (today cx)) + unat (maxPerClaim s)
           \<and> unat (totalClaimed t) = unat (totalClaimed s) + unat (maxPerClaim s)
           \<and> (\<Sum>u\<in>set users. unat (userDailySponsored t u) - unat (user_used s (today cx) u))
               = length users * (unat (maxPerClaim s) div length users)"
    using s' f bal sum by blast
  have third: "paid s' = paid s @ [(msg_sender cx, maxPerClaim s)]
         \<and> unat (balance s') + unat (maxPerClaim s) = unat (balance s)
         \<and> unat (relayerDailyClaimed s' (msg_sender cx))
             = unat (relayer_used s (today cx) (msg_sender cx)) + unat (maxPerClaim s)
         \<and> unat (globalDailyClaimed s') = unat (global_used s (today cx)) + unat (maxPerClaim s)
         \<and> unat (totalClaimed s') = unat (totalClaimed s) + unat (maxPerClaim s)
         \<and> (\<Sum>u\<in>set users. unat (userDailySponsored s' u) - unat (user_used s (today cx) u))
             = length users * (unat (maxPerClaim s) div length users)"
    if q: "quiet_recipient cx"
    using f bal sum by (simp add: s' after_transfer_quiet [OF q])
  have le: "length users * (unat (maxPerClaim s) div length users) \<le> unat (maxPerClaim s)"
    by simp
  show ?thesis using first le third by blast
qed

lemma example_quiet_recipient: "quiet_recipient example_context"
  by (simp add: quiet_recipient_def example_context_def)

lemma example_claim_two:
  "\<exists>t. claim example_context 6 [11, 12] example_sponsor = (Inr (), t)"
proof -
  have "bookkeeping_fits example_context example_sponsor 6 [11, 12]"
    by (simp add: bookkeeping_fits_def example_sponsor_def example_sponsor_funded_eq
          example_today capped_def user_used_def numeral_2_eq_2 [symmetric])
  moreover have "whitelistedRelayers example_sponsor (msg_sender example_context)"
    "\<not> paused example_sponsor"
    "send_succeeds example_context (msg_sender example_context) (capped example_sponsor 6)"
    by (simp_all add: example_sponsor_def example_sponsor_funded_eq example_context_def)
  ultimately show ?thesis
    using example_checks by (simp add: claim_succeeds_iff example_context_def)
qed

lemma example_claim_two_eq:
  "claim example_context 6 [11, 12] example_sponsor
     = (Inr (), snd (claim example_context 6 [11, 12] example_sponsor))"
  using example_claim_two by auto

lemma example_two_fields:
  "maxPerClaim example_sponsor = 5" "capped example_sponsor 6 = 5"
  "user_used example_sponsor (today example_context) u = 0"
  "paid example_sponsor = []" "msg_sender example_context = 7"
  by (simp_all add: example_sponsor_def example_sponsor_funded_eq capped_def user_used_def
        example_context_def)

lemma example_two_counters:
  "unat (userDailySponsored (snd (claim example_context 6 [11, 12] example_sponsor)) 11) = 2"
  "unat (userDailySponsored (snd (claim example_context 6 [11, 12] example_sponsor)) 12) = 2"
proof -
  from claim_hands_over(1) [OF example_claim_two_eq] obtain t where
    s': "snd (claim example_context 6 [11, 12] example_sponsor)
           = after_transfer example_context (capped example_sponsor 6) [11, 12] t" and
    w: "claim_writes example_context 6 [11, 12] example_sponsor t" by blast
  from w have "unat (userDailySponsored t 11) = 2" "unat (userDailySponsored t 12) = 2"
    by (simp_all add: claim_writes_def example_two_fields numeral_2_eq_2 [symmetric])
  then show
    "unat (userDailySponsored (snd (claim example_context 6 [11, 12] example_sponsor)) 11) = 2"
    "unat (userDailySponsored (snd (claim example_context 6 [11, 12] example_sponsor)) 12) = 2"
    by (simp_all add: s' after_transfer_quiet [OF example_quiet_recipient])
qed

text \<open>
  With cap 5 and two users the counters of the users grow by 2 each: 4 in total, not 5.
\<close>

theorem claim_above_cap_pays_the_cap_counterexample:
  "fst (claim example_context 6 [11, 12] example_sponsor) = Inr ()
   \<and> maxPerClaim example_sponsor < 6
   \<and> unat (maxPerClaim example_sponsor) = 5
   \<and> userDailySponsored example_sponsor 11 = 0
   \<and> userDailySponsored example_sponsor 12 = 0
   \<and> unat (userDailySponsored (snd (claim example_context 6 [11, 12] example_sponsor)) 11)
       + unat (userDailySponsored (snd (claim example_context 6 [11, 12] example_sponsor)) 12)
       = 4"
proof -
  have "fst (claim example_context 6 [11, 12] example_sponsor) = Inr ()"
    using example_claim_two by auto
  moreover have "userDailySponsored example_sponsor 11 = 0"
    "userDailySponsored example_sponsor 12 = 0"
    by (simp_all add: example_sponsor_def example_sponsor_funded_eq)
  ultimately show ?thesis by (simp add: example_two_fields example_two_counters)
qed

theorem claim_above_cap_pays_the_cap_witness:
  "claim example_context 6 [11, 12] example_sponsor
     = (Inr (), snd (claim example_context 6 [11, 12] example_sponsor))
   \<and> maxPerClaim example_sponsor < 6
   \<and> quiet_recipient example_context
   \<and> paid (snd (claim example_context 6 [11, 12] example_sponsor)) = [(7, 5)]"
proof -
  have lt: "maxPerClaim example_sponsor < 6" by (simp add: example_two_fields)
  from claim_above_cap_pays_the_cap [OF example_claim_two_eq lt] example_quiet_recipient
  have "paid (snd (claim example_context 6 [11, 12] example_sponsor)) = [(7, 5)]"
    by (simp add: example_two_fields)
  with lt example_claim_two_eq example_quiet_recipient show ?thesis by blast
qed

text \<open>
  Claim C9. In a claim that goes through, the list of users is not empty, and when the
  claim hands the transfer over (state \<open>t\<close>) it has made the counter of each listed user
  grow, from its value as read on the day of the call, by the integer share
  \<open>reimbursement div count\<close> once per occurrence in the list, and has left the other
  counters alone. The growths sum to \<open>count * (reimbursement div count)\<close>, which is at most
  the capped reimbursement: the remainder \<open>reimbursement mod count\<close> is counted against
  nobody. When the code of the relayer does not call back into the sponsor, the same holds
  of the state after the call.
\<close>

theorem beneficiary_increments_within_reimbursement:
  assumes "claim cx amount users s = (Inr (), s')"
  shows "users \<noteq> []
    \<and> (\<exists>t. s' = after_transfer cx (capped s amount) users t
         \<and> (\<forall>u\<in>set users. unat (userDailySponsored t u)
               = unat (user_used s (today cx) u)
                 + count_list users u * (unat (capped s amount) div length users))
         \<and> (\<forall>u. u \<notin> set users \<longrightarrow> userDailySponsored t u = userDailySponsored s u)
         \<and> (\<Sum>u\<in>set users. unat (userDailySponsored t u) - unat (user_used s (today cx) u))
               = length users * (unat (capped s amount) div length users))
    \<and> length users * (unat (capped s amount) div length users) \<le> unat (capped s amount)
    \<and> unat (capped s amount) - length users * (unat (capped s amount) div length users)
           = unat (capped s amount) mod length users
    \<and> (quiet_recipient cx \<longrightarrow>
          (\<forall>u\<in>set users. unat (userDailySponsored s' u)
               = unat (user_used s (today cx) u)
                 + count_list users u * (unat (capped s amount) div length users))
        \<and> (\<Sum>u\<in>set users. unat (userDailySponsored s' u) - unat (user_used s (today cx) u))
               = length users * (unat (capped s amount) div length users))"
proof -
  from claim_hands_over [OF assms] obtain t where
    s': "s' = after_transfer cx (capped s amount) users t" and
    w: "claim_writes cx amount users s t" and ne: "users \<noteq> []" by blast
  note sum = claim_writes_sum [OF w]
  from w have inc: "\<forall>u\<in>set users. unat (userDailySponsored t u)
               = unat (user_used s (today cx) u)
                 + count_list users u * (unat (capped s amount) div length users)"
    and out: "\<forall>u. u \<notin> set users \<longrightarrow> userDailySponsored t u = userDailySponsored s u"
    by (simp_all add: claim_writes_def)
  have second: "\<exists>t. s' = after_transfer cx (capped s amount) users t
         \<and> (\<forall>u\<in>set users. unat (userDailySponsored t u)
               = unat (user_used s (today cx) u)
                 + count_list users u * (unat (capped s amount) div length users))
         \<and> (\<forall>u. u \<notin> set users \<longrightarrow> userDailySponsored t u = userDailySponsored s u)
         \<and> (\<Sum>u\<in>set users. unat (userDailySponsored t u) - unat (user_used s (today cx) u))
               = length users * (unat (capped s amount) div length users)"
    using s' inc out sum by blast
  have rem: "unat (capped s amount) - length users * (unat (capped s amount) div length users)
           = unat (capped s amount) mod length users"
    by (simp add: minus_mult_div_eq_mod)
  have last: "(\<forall>u\<in>set users. unat (userDailySponsored s' u)
               = unat (user_used s (today cx) u)
                 + count_list users u * (unat (capped s amount) div length users))
        \<and> (\<Sum>u\<in>set users. unat (userDailySponsored s' u) - unat (user_used s (today cx) u))
               = length users * (unat (capped s amount) div length users)"
    if q: "quiet_recipient cx"
    using inc sum by (simp add: s' after_transfer_quiet [OF q])
  have le: "length users * (unat (capped s amount) div length users) \<le> unat (capped s amount)"
    by simp
  show ?thesis using ne second le rem last by blast
qed

theorem beneficiary_increments_within_reimbursement_witness:
  "claim example_context 6 [11, 12] example_sponsor
     = (Inr (), snd (claim example_context 6 [11, 12] example_sponsor))
   \<and> quiet_recipient example_context
   \<and> (\<Sum>u\<in>set [11, 12].
        unat (userDailySponsored (snd (claim example_context 6 [11, 12] example_sponsor)) u)
        - unat (user_used example_sponsor (today example_context) u)) = 4
   \<and> unat (capped example_sponsor 6) = 5"
proof -
  from beneficiary_increments_within_reimbursement [OF example_claim_two_eq]
    example_quiet_recipient
  have "(\<Sum>u\<in>set [11, 12].
        unat (userDailySponsored (snd (claim example_context 6 [11, 12] example_sponsor)) u)
        - unat (user_used example_sponsor (today example_context) u))
        = length [11::address, 12] * (unat (capped example_sponsor 6) div length [11::address, 12])"
    by blast
  also have "\<dots> = 4" by (simp add: example_two_fields numeral_2_eq_2 [symmetric])
  finally show ?thesis
    using example_claim_two_eq example_quiet_recipient by (simp add: example_two_fields)
qed

lemma estimate_users_answers:
  "\<forall>u\<in>set users. unat (user_used s d u) + unat per < 2 ^ 256 \<Longrightarrow>
   \<exists>b. estimate_users s d per users = Inr b"
proof (induction users)
  case Nil
  then show ?case by auto
next
  case (Cons u us)
  then have "checked_add (user_used s d u) per = Inr (user_used s d u + per)"
    by (simp add: checked_add_def)
  moreover from Cons have "\<exists>b. estimate_users s d per us = Inr b" by simp
  ultimately show ?case by (auto simp: user_used_def Let_def)
qed

lemma estimate_answers:
  assumes "users \<noteq> []" and "estimate_fits cx s amount relayer users"
  shows "\<exists>x b. estimateReimbursement cx s amount relayer users = Inr (x, b)"
proof -
  let ?r = "capped s amount"
  let ?per = "word_of_nat (unat ?r div length users) :: uint256"
  from assms(2) have
    f1: "unat (relayer_used s (today cx) relayer) + unat ?r < 2 ^ 256" and
    f2: "unat (global_used s (today cx)) + unat ?r < 2 ^ 256" and
    f3: "\<forall>u\<in>set users. unat (user_used s (today cx) u) + unat ?r div length users < 2 ^ 256"
    by (simp_all add: estimate_fits_def)
  have per: "checked_div ?r (length users) = Inr ?per"
    using assms(1) by (simp add: checked_div_def)
  note p = checked_div_Inr [OF per]
  have a1: "checked_add (relayer_used s (today cx) relayer) ?r
              = Inr (relayer_used s (today cx) relayer + ?r)"
    using f1 by (simp add: checked_add_def)
  have a2: "checked_add (global_used s (today cx)) ?r = Inr (global_used s (today cx) + ?r)"
    using f2 by (simp add: checked_add_def)
  from f3 p have "\<forall>u\<in>set users. unat (user_used s (today cx) u) + unat ?per < 2 ^ 256"
    by simp
  from estimate_users_answers [OF this] obtain b where
    us: "estimate_users s (today cx) ?per users = Inr b" by blast
  show ?thesis
    unfolding estimateReimbursement_def Let_def capped_def [symmetric]
      relayer_used_def [symmetric] global_used_def [symmetric]
    using a1 a2 per us by auto
qed

lemma estimate_decides:
  assumes "users \<noteq> []" and "estimate_fits cx s amount relayer users"
  shows "estimateReimbursement cx s amount relayer users
           = (if checks_pass cx s amount relayer users then Inr (capped s amount, True)
              else Inr (0, False))"
proof -
  from estimate_answers [OF assms] obtain x b where
    e: "estimateReimbursement cx s amount relayer users = Inr (x, b)" by blast
  show ?thesis
  proof (cases b)
    case True
    with e estimate_True [of cx s amount relayer users x] show ?thesis by simp
  next
    case False
    from e False have "x = 0" by (auto dest: estimate_False)
    moreover from e False have "\<not> checks_pass cx s amount relayer users"
      using estimate_True [of cx s amount relayer users "capped s amount"] by auto
    ultimately show ?thesis using e False by simp
  qed
qed

text \<open>
  Claim C6, as the code has it. \<open>estimateReimbursement\<close> is a view function: it returns a
  value and writes nothing. Asked for the caller of the claim, it answers true, with the
  capped amount, exactly when the checks of steps 2 to 6 pass on the current state, and on
  a list that is not empty, with additions that fit, it answers \<open>(0, false)\<close> exactly when
  one of them fails. The claim itself goes through exactly when, besides the checks, the
  caller is whitelisted, the contract is not paused, the additions of the bookkeeping fit
  and the transfer of step 7 is accepted. So for a whitelisted caller that accepts the
  transfer, on a contract that is not paused: the estimate is true with the capped amount
  exactly when the claim goes through, and false exactly when the claim is rejected. A
  claim that goes through pays the capped amount.
\<close>

theorem estimate_replicates_claim_checks:
  "((estimateReimbursement cx s amount (msg_sender cx) users = Inr (x, True))
      = (x = capped s amount \<and> checks_pass cx s amount (msg_sender cx) users))
   \<and> (estimateReimbursement cx s amount (msg_sender cx) users = Inr (x, False)
        \<longrightarrow> x = 0 \<and> (\<exists>e. claim cx amount users s = (Inl e, s)))
   \<and> (users \<noteq> [] \<and> estimate_fits cx s amount (msg_sender cx) users
        \<longrightarrow> estimateReimbursement cx s amount (msg_sender cx) users
              = (if checks_pass cx s amount (msg_sender cx) users
                 then Inr (capped s amount, True) else Inr (0, False)))
   \<and> ((\<exists>t. claim cx amount users s = (Inr (), t))
      = (whitelistedRelayers s (msg_sender cx) \<and> \<not> paused s
         \<and> estimateReimbursement cx s amount (msg_sender cx) users = Inr (capped s amount, True)
         \<and> bookkeeping_fits cx s amount users
         \<and> send_succeeds cx (msg_sender cx) (capped s amount)))
   \<and> (whitelistedRelayers s (msg_sender cx) \<and> \<not> paused s
       \<and> users \<noteq> [] \<and> estimate_fits cx s amount (msg_sender cx) users
       \<and> bookkeeping_fits cx s amount users
       \<and> send_succeeds cx (msg_sender cx) (capped s amount)
        \<longrightarrow> ((estimateReimbursement cx s amount (msg_sender cx) users = Inr (capped s amount, True))
              = (\<exists>t. claim cx amount users s = (Inr (), t)))
          \<and> ((estimateReimbursement cx s amount (msg_sender cx) users = Inr (0, False))
              = (\<exists>e. claim cx amount users s = (Inl e, s))))
   \<and> (claim cx amount users s = (Inr (), s')
        \<longrightarrow> (\<exists>t. s' = after_transfer cx (capped s amount) users t
                \<and> paid t = paid s @ [(msg_sender cx, capped s amount)]
                \<and> unat (balance t) + unat (capped s amount) = unat (balance s)))"
proof (intro conjI impI)
  show "(estimateReimbursement cx s amount (msg_sender cx) users = Inr (x, True))
      = (x = capped s amount \<and> checks_pass cx s amount (msg_sender cx) users)"
    by (rule estimate_True)
next
  assume f: "estimateReimbursement cx s amount (msg_sender cx) users = Inr (x, False)"
  then show "x = 0" by (rule estimate_False)
  have "\<not> (\<exists>t. claim cx amount users s = (Inr (), t))"
  proof
    assume "\<exists>t. claim cx amount users s = (Inr (), t)"
    then have "checks_pass cx s amount (msg_sender cx) users"
      by (simp add: claim_succeeds_iff)
    then have "estimateReimbursement cx s amount (msg_sender cx) users
                 = Inr (capped s amount, True)"
      by (simp add: estimate_True)
    with f show False by simp
  qed
  then show "\<exists>e. claim cx amount users s = (Inl e, s)" by (rule claim_fails)
next
  assume "users \<noteq> [] \<and> estimate_fits cx s amount (msg_sender cx) users"
  then show "estimateReimbursement cx s amount (msg_sender cx) users
              = (if checks_pass cx s amount (msg_sender cx) users
                 then Inr (capped s amount, True) else Inr (0, False))"
    using estimate_decides by blast
next
  show "(\<exists>t. claim cx amount users s = (Inr (), t))
      = (whitelistedRelayers s (msg_sender cx) \<and> \<not> paused s
         \<and> estimateReimbursement cx s amount (msg_sender cx) users = Inr (capped s amount, True)
         \<and> bookkeeping_fits cx s amount users
         \<and> send_succeeds cx (msg_sender cx) (capped s amount))"
    by (auto simp: claim_succeeds_iff estimate_True)
next
  assume h: "whitelistedRelayers s (msg_sender cx) \<and> \<not> paused s
       \<and> users \<noteq> [] \<and> estimate_fits cx s amount (msg_sender cx) users
       \<and> bookkeeping_fits cx s amount users
       \<and> send_succeeds cx (msg_sender cx) (capped s amount)"
  then have dec: "estimateReimbursement cx s amount (msg_sender cx) users
              = (if checks_pass cx s amount (msg_sender cx) users
                 then Inr (capped s amount, True) else Inr (0, False))"
    using estimate_decides by blast
  from h have ok: "(\<exists>t. claim cx amount users s = (Inr (), t))
                     = checks_pass cx s amount (msg_sender cx) users"
    by (simp add: claim_succeeds_iff)
  show "(estimateReimbursement cx s amount (msg_sender cx) users = Inr (capped s amount, True))
              = (\<exists>t. claim cx amount users s = (Inr (), t))"
    using dec ok by simp
  have rej: "(\<exists>e. claim cx amount users s = (Inl e, s))
               = (\<not> (\<exists>t. claim cx amount users s = (Inr (), t)))"
    using claim_fails [of cx amount users s] by auto
  show "(estimateReimbursement cx s amount (msg_sender cx) users = Inr (0, False))
              = (\<exists>e. claim cx amount users s = (Inl e, s))"
    using dec ok rej by simp
next
  assume c: "claim cx amount users s = (Inr (), s')"
  from claim_hands_over(1) [OF c] obtain t where
    "s' = after_transfer cx (capped s amount) users t"
    "claim_writes cx amount users s t"
    "unat (balance t) + unat (capped s amount) = unat (balance s)" by blast
  then show "\<exists>t. s' = after_transfer cx (capped s amount) users t
                \<and> paid t = paid s @ [(msg_sender cx, capped s amount)]
                \<and> unat (balance t) + unat (capped s amount) = unat (balance s)"
    by (auto simp: claim_writes_def)
qed

lemma example_estimate_refusing:
  "estimateReimbursement example_refusing_context example_sponsor 6 7 [11] = Inr (5, True)"
  by (simp add: estimateReimbursement_def example_sponsor_def example_sponsor_funded_eq
        today_def checked_add_def checked_div_def Let_def example_refusing_context_def)

lemma example_estimate_empty:
  "estimateReimbursement example_context example_sponsor 6 7 [] = Inl (Panic DivisionByZero)"
  by (simp add: estimateReimbursement_def example_sponsor_def example_sponsor_funded_eq
        today_def checked_add_def checked_div_def Let_def example_context_def)

text \<open>
  Two calls where estimate and claim part: a whitelisted relayer that refuses the transfer
  is told true and its claim is rejected; for an empty list of users the estimate does not
  answer false, it panics on the division as the claim does.
\<close>

theorem estimate_replicates_claim_checks_counterexample:
  "whitelistedRelayers example_sponsor (msg_sender example_refusing_context)
   \<and> \<not> paused example_sponsor
   \<and> msg_sender example_refusing_context = 7
   \<and> estimateReimbursement example_refusing_context example_sponsor 6 7 [11] = Inr (5, True)
   \<and> claim example_refusing_context 6 [11] example_sponsor
       = (Inl (Require ''GasSponsor: transfer failed''), example_sponsor)
   \<and> msg_sender example_context = 7
   \<and> estimateReimbursement example_context example_sponsor 6 7 [] = Inl (Panic DivisionByZero)
   \<and> claim example_context 6 [] example_sponsor = (Inl (Panic DivisionByZero), example_sponsor)"
proof (intro conjI)
  show "whitelistedRelayers example_sponsor (msg_sender example_refusing_context)"
    by (simp add: example_sponsor_def example_sponsor_funded_eq example_refusing_context_def)
  show "\<not> paused example_sponsor"
    by (simp add: example_sponsor_def example_sponsor_funded_eq)
  show "msg_sender example_refusing_context = 7" by (simp add: example_refusing_context_def)
  show "msg_sender example_context = 7" by (simp add: example_context_def)
  show "estimateReimbursement example_refusing_context example_sponsor 6 7 [11] = Inr (5, True)"
    by (rule example_estimate_refusing)
  show "claim example_refusing_context 6 [11] example_sponsor
       = (Inl (Require ''GasSponsor: transfer failed''), example_sponsor)"
    by (rule example_claim_refused)
  show "estimateReimbursement example_context example_sponsor 6 7 [] = Inl (Panic DivisionByZero)"
    by (rule example_estimate_empty)
  show "claim example_context 6 [] example_sponsor = (Inl (Panic DivisionByZero), example_sponsor)"
    by (rule example_claim_empty)
qed

lemma example_low_estimate_fits:
  "estimate_fits example_context (example_sponsor_funded 3) 6 (msg_sender example_context) [11]"
  "bookkeeping_fits example_context (example_sponsor_funded 3) 6 [11]"
  "whitelistedRelayers (example_sponsor_funded 3) (msg_sender example_context)"
  "\<not> paused (example_sponsor_funded 3)"
  "send_succeeds example_context (msg_sender example_context) (capped (example_sponsor_funded 3) 6)"
  by (simp_all add: estimate_fits_def bookkeeping_fits_def example_sponsor_funded_eq example_today
        capped_def relayer_used_def user_used_def global_used_def example_context_def today_def)

theorem estimate_replicates_claim_checks_witness:
  "estimateReimbursement example_context example_sponsor 6 (msg_sender example_context) [11, 12]
     = Inr (5, True)
   \<and> claim example_context 6 [11, 12] example_sponsor
       = (Inr (), snd (claim example_context 6 [11, 12] example_sponsor))
   \<and> estimateReimbursement example_context (example_sponsor_funded 3) 6
        (msg_sender example_context) [11] = Inr (0, False)
   \<and> (\<exists>e. claim example_context 6 [11] (example_sponsor_funded 3)
          = (Inl e, example_sponsor_funded 3))"
proof -
  note inst = estimate_replicates_claim_checks
    [of example_context example_sponsor 6 "[11, 12]" 5
        "snd (claim example_context 6 [11, 12] example_sponsor)"]
  have est: "estimateReimbursement example_context example_sponsor 6
               (msg_sender example_context) [11, 12] = Inr (5, True)"
    using inst [THEN conjunct1] example_checks
    by (simp add: example_two_fields)
  note low = estimate_replicates_claim_checks
    [of example_context "example_sponsor_funded 3" 6 "[11]" 0,
     THEN conjunct2, THEN conjunct2, THEN conjunct2, THEN conjunct2, THEN conjunct1]
  have nopass: "\<not> checks_pass example_context (example_sponsor_funded 3) 6
                    (msg_sender example_context) [11]"
    by (simp add: checks_pass_def example_low_fields)
  have lowest: "estimateReimbursement example_context (example_sponsor_funded 3) 6
        (msg_sender example_context) [11] = Inr (0, False)"
    using estimate_replicates_claim_checks
      [of example_context "example_sponsor_funded 3" 6 "[11]" 0,
       THEN conjunct2, THEN conjunct2, THEN conjunct1] example_low_estimate_fits(1) nopass
    by simp
  have rej: "\<exists>e. claim example_context 6 [11] (example_sponsor_funded 3)
          = (Inl e, example_sponsor_funded 3)"
    using low example_low_estimate_fits lowest by simp
  show ?thesis using est example_claim_two_eq lowest rej by blast
qed

text \<open>
  A relayer contract whose code, on receiving the reimbursement, claims again: after the
  one call \<open>claim(6, [11])\<close> two payments of 5 have left and the counters stand at 10.
\<close>

lemma example_reentrant_claim:
  "fst (claim example_reentrant_context 6 [11] example_sponsor) = Inr ()
   \<and> balance (snd (claim example_reentrant_context 6 [11] example_sponsor)) = 90
   \<and> relayerDailyClaimed (snd (claim example_reentrant_context 6 [11] example_sponsor)) 7 = 10
   \<and> userDailySponsored (snd (claim example_reentrant_context 6 [11] example_sponsor)) 11 = 10
   \<and> paid (snd (claim example_reentrant_context 6 [11] example_sponsor)) = [(7, 5), (7, 5)]"
  by (simp add: claim_def transact_def claim_body_def claim_commit_def after_transfer_def
        example_sponsor_def example_sponsor_funded_eq today_def capped_def roll_relayer_def
        roll_user_def roll_global_def checked_add_def checked_div_def Let_def
        example_reentrant_context_def example_context_def)

text \<open>
  Claim C10. \<open>deposit\<close> rejects a zero amount. A plain transfer runs \<open>receive\<close>, which has
  no check on the amount: a transfer of zero is accepted, adds (zero) to \<open>totalDeposited\<close>
  and emits \<open>Deposited\<close>; so is every amount whose checked addition to \<open>totalDeposited\<close>
  fits in 256 bits.
\<close>

theorem receive_accepts_what_deposit_rejects:
  "deposit cx 0 s = (Inl (Require ''GasSponsor: zero deposit''), s)
   \<and> receive cx 0 s
       = (Inr (), s\<lparr>balance := balance s + 0, totalDeposited := totalDeposited s + 0,
                    logged := logged s @ [Deposited (msg_sender cx) 0]\<rparr>)
   \<and> (unat (totalDeposited s) + unat v < 2 ^ 256 \<longrightarrow>
        receive cx v s
          = (Inr (), s\<lparr>balance := balance s + v, totalDeposited := totalDeposited s + v,
                       logged := logged s @ [Deposited (msg_sender cx) v]\<rparr>)
        \<and> unat (totalDeposited s + v) = unat (totalDeposited s) + unat v)"
proof (intro conjI impI)
  show "deposit cx 0 s = (Inl (Require ''GasSponsor: zero deposit''), s)"
    by (simp add: deposit_def transact_def deposit_body_def)
  show "receive cx 0 s
       = (Inr (), s\<lparr>balance := balance s + 0, totalDeposited := totalDeposited s + 0,
                    logged := logged s @ [Deposited (msg_sender cx) 0]\<rparr>)"
    using unat_bound [of "totalDeposited s"]
    by (simp add: receive_def transact_def receive_body_def checked_add_def)
next
  assume fit: "unat (totalDeposited s) + unat v < 2 ^ 256"
  then show "receive cx v s
          = (Inr (), s\<lparr>balance := balance s + v, totalDeposited := totalDeposited s + v,
                       logged := logged s @ [Deposited (msg_sender cx) v]\<rparr>)"
    by (simp add: receive_def transact_def receive_body_def checked_add_def)
  from fit show "unat (totalDeposited s + v) = unat (totalDeposited s) + unat v"
    by (simp add: unat_word_ariths)
qed

theorem receive_accepts_what_deposit_rejects_witness:
  "unat (totalDeposited example_sponsor) + unat (40 :: uint256) < 2 ^ 256
   \<and> totalDeposited (snd (receive example_context 40 example_sponsor)) = 140
   \<and> fst (receive example_context 40 example_sponsor) = Inr ()
   \<and> fst (receive example_context 0 example_sponsor) = Inr ()
   \<and> logged (snd (receive example_context 0 example_sponsor))
       = [RelayerStatusChanged 7 True, Deposited 9 100, Deposited 7 0]
   \<and> fst (deposit example_context 0 example_sponsor) = Inl (Require ''GasSponsor: zero deposit'')"
proof -
  have fit: "unat (totalDeposited example_sponsor) + unat (40 :: uint256) < 2 ^ 256"
    by (simp add: example_sponsor_def example_sponsor_funded_eq)
  note inst = receive_accepts_what_deposit_rejects [of example_context example_sponsor 40]
  from inst fit have r: "receive example_context 40 example_sponsor
          = (Inr (), example_sponsor\<lparr>balance := balance example_sponsor + 40,
                       totalDeposited := totalDeposited example_sponsor + 40,
                       logged := logged example_sponsor @ [Deposited (msg_sender example_context) 40]\<rparr>)"
    by blast
  from inst have z: "receive example_context 0 example_sponsor
       = (Inr (), example_sponsor\<lparr>balance := balance example_sponsor + 0,
                    totalDeposited := totalDeposited example_sponsor + 0,
                    logged := logged example_sponsor @ [Deposited (msg_sender example_context) 0]\<rparr>)"
    and d: "deposit example_context 0 example_sponsor
              = (Inl (Require ''GasSponsor: zero deposit''), example_sponsor)"
    by blast+
  show ?thesis
    using fit
    by (simp add: r z d) (simp add: example_sponsor_def example_sponsor_funded_eq example_context_def)
qed

end
